theory Spec2Isabelle
  imports Main "HOL-Library.Word"
begin

section \<open>The AFM raster-scan firmware (DIY\_AFM\_control\_Arduino\_firmware\_115200\_Baud\_v\_4.ino)\<close>

text \<open>
  The sketch runs on an ATmega2560 (it drives the registers PORTL and PORTC, the digital
  pins 49..42 and 37..30 of an Arduino Mega). There \<^verbatim>\<open>int\<close> is a 16-bit two's
  complement integer, \<^verbatim>\<open>byte\<close> an unsigned 8-bit one, \<^verbatim>\<open>char\<close> a signed 8-bit one,
  and the port registers hold 8 bits. An \<^verbatim>\<open>int\<close> is a \<open>16 word\<close> read with
  \<open>sint\<close>; a \<^verbatim>\<open>byte\<close>, a \<^verbatim>\<open>char\<close> and a port register are an \<open>8 word\<close>
  (a \<^verbatim>\<open>char\<close> is read with \<open>sint\<close> where the source compares it).
\<close>

type_synonym byte = "8 word"
type_synonym int16 = "16 word"

subsection \<open>What the program does to the outside\<close>

text \<open>
  Every effect of the sketch on its surroundings, in the order in which the statements
  run: a write to a port register, a pause, a conversion of the analog input (with the
  value it returned), a character or a number printed on the serial line.
\<close>

datatype event =
    Write_PORTL byte
  | Write_PORTC byte
  | Delay nat
  | DelayMicroseconds int16
  | AnalogRead int16
  | Serial_print byte
  | Serial_println int16

subsection \<open>The global variables\<close>

text \<open>
  One field for every global variable that the code reads or writes (the globals
  \<^verbatim>\<open>y\<close>, \<^verbatim>\<open>freq_gap\<close>, \<^verbatim>\<open>point\<close>, \<^verbatim>\<open>maxpoint\<close>, \<^verbatim>\<open>con\<close>, \<^verbatim>\<open>sf\<close>,
  \<^verbatim>\<open>color\<close> and \<^verbatim>\<open>fes_stop\<close> are never used). The counters \<^verbatim>\<open>i\<close> and
  \<^verbatim>\<open>j\<close> are the fields \<open>i_var\<close> and \<open>j_var\<close>. Four more fields are the
  surroundings: \<open>rx\<close>, the bytes that the host has sent and the sketch has not read
  yet, in order of arrival; \<open>A0\<close>, the value that the n-th conversion of the analog
  input returns; \<open>conversions\<close>, the number of conversions made so far; \<open>out\<close>, the
  events so far, oldest first. The receive buffer of the Arduino core holds 64 bytes; the
  host is taken not to overrun it, so \<open>rx\<close> loses no byte.
\<close>

record state =
  j_var :: byte
  i_var :: int16
  val :: byte
  direc :: byte
  startX :: int16
  startY :: int16
  gap :: int16
  inputfx :: "byte list"
  tempfx :: byte
  inputfy :: "byte list"
  tempfy :: byte
  inputgap :: "byte list"
  tempgap :: byte
  inputpoint :: "byte list"
  temppoint :: byte
  fes :: "int16 list"
  fes_signal :: int16
  delay_time :: int16
  PORTL :: byte
  PORTC :: byte
  rx :: "byte list"
  A0 :: "nat \<Rightarrow> int16"
  conversions :: nat
  out :: "event list"

definition maxDigitfx :: byte where "maxDigitfx = 3"
definition maxfx :: int16 where "maxfx = 255"
definition maxDigitfy :: byte where "maxDigitfy = 3"
definition maxfy :: int16 where "maxfy = 255"
definition maxDigitgap :: byte where "maxDigitgap = 3"
definition maxgap :: int16 where "maxgap = 128"
definition maxDigitpoint :: byte where "maxDigitpoint = 5"

text \<open>
  The state when the start-up function (lines 47 to 54) has run: the initialisers of the
  globals (arrays without an initialiser are zero), both port registers written with zero.
  The host's bytes and the analog signal are parameters.
\<close>

definition initial_state :: "byte list \<Rightarrow> (nat \<Rightarrow> int16) \<Rightarrow> state" where
  "initial_state bytes signal =
     \<lparr> j_var = 0, i_var = 0, val = 0, direc = 2, startX = 0, startY = 0, gap = 0,
       inputfx = replicate 4 0, tempfx = 0,
       inputfy = replicate 4 0, tempfy = 0,
       inputgap = replicate 4 0, tempgap = 0,
       inputpoint = replicate 6 0, temppoint = 0,
       fes = replicate 256 0, fes_signal = 0, delay_time = 1400,
       PORTL = 0, PORTC = 0,
       rx = bytes, A0 = signal, conversions = 0,
       out = [Write_PORTL 0, Write_PORTC 0] \<rparr>"

subsection \<open>Library calls\<close>

definition emit :: "event \<Rightarrow> state \<Rightarrow> state" where
  "emit e s = s\<lparr>out := out s @ [e]\<rparr>"

text \<open>\<^verbatim>\<open>Serial.available()\<close>: a byte is waiting.\<close>

definition Serial_available :: "state \<Rightarrow> bool" where
  "Serial_available s = (rx s \<noteq> [])"

text \<open>
  \<^verbatim>\<open>analogRead(A0)\<close>: the next value of the signal; the conversion is an event.
\<close>

definition analogRead :: "state \<Rightarrow> int16 \<times> state" where
  "analogRead s =
     (let v = A0 s (conversions s)
      in (v, emit (AnalogRead v) (s\<lparr>conversions := Suc (conversions s)\<rparr>)))"

text \<open>
  \<^verbatim>\<open>atoi\<close> is a function of the C library (avr-libc), not of the sketch, and is
  modelled from its contract: leading white space is skipped, one sign is accepted, the
  decimal digits that follow are accumulated, and the first character that is not a digit
  (the terminating NUL among them) ends the number; without digits the result is zero, as
  section 4.1 of the specification says too. The result is an \<^verbatim>\<open>int\<close>, so the digits
  are accumulated in 16-bit arithmetic. The argument is the array; the end of the list is
  the end of the array.
\<close>

definition isdigit :: "byte \<Rightarrow> bool" where
  "isdigit c = (48 \<le> sint c \<and> sint c \<le> 57)"

definition isspace :: "byte \<Rightarrow> bool" where
  "isspace c = (c = 32 \<or> (9 \<le> sint c \<and> sint c \<le> 13))"

fun atoi_digits :: "int16 \<Rightarrow> byte list \<Rightarrow> int16" where
  "atoi_digits acc [] = acc"
| "atoi_digits acc (c # cs) =
     (if isdigit c then atoi_digits (acc * 10 + ucast (c - 48)) cs else acc)"

definition atoi :: "byte list \<Rightarrow> int16" where
  "atoi str =
     (case dropWhile isspace str of
        [] \<Rightarrow> 0
      | c # cs \<Rightarrow>
          if c = 45 then - atoi_digits 0 cs
          else if c = 43 then atoi_digits 0 cs
          else atoi_digits 0 (c # cs))"

subsection \<open>The command interpreter (lines 57 to 133)\<close>

text \<open>
  The loop \<^verbatim>\<open>while ((temp = Serial.read()) != '\n') { if (temp >= '0' && temp <= '9'
  && j < maxDigit) { input[j] = temp; j++; } }\<close>, which the source writes four times, for
  the variables of \<^verbatim>\<open>p\<close>, \<^verbatim>\<open>x\<close>, \<^verbatim>\<open>y\<close> and \<^verbatim>\<open>g\<close>. Its arguments are the
  digit capacity, the bytes not read yet, the array and \<^verbatim>\<open>j\<close>; it returns the array,
  \<^verbatim>\<open>j\<close>, the last value of \<^verbatim>\<open>temp\<close> and the bytes left. When no byte is waiting
  \<^verbatim>\<open>Serial.read()\<close> returns -1, which is neither a line feed nor a digit: the loop
  reads again. So when the host sends no line feed the loop never ends: \<open>None\<close>.
\<close>

fun read_digits ::
  "byte \<Rightarrow> byte list \<Rightarrow> byte list \<Rightarrow> byte \<Rightarrow> (byte list \<times> byte \<times> byte \<times> byte list) option" where
  "read_digits maxDigit [] input j = None"
| "read_digits maxDigit (temp # rest) input j =
     (if temp = 10 then Some (input, j, temp, rest)
      else if 48 \<le> sint temp \<and> sint temp \<le> 57 \<and> j < maxDigit
        then read_digits maxDigit rest (input[unat j := temp]) (j + 1)
      else read_digits maxDigit rest input j)"

text \<open>The four parameter cases of the \<^verbatim>\<open>switch\<close>, in the order of the source.\<close>

definition case_p :: "state \<Rightarrow> state option" where
  "case_p s =
     (case read_digits maxDigitpoint (rx s) (inputpoint s) 0 of
        None \<Rightarrow> None
      | Some (input, j, temp, rest) \<Rightarrow>
          let input' = input[unat j := 0]
          in Some (s\<lparr>j_var := j, temppoint := temp, inputpoint := input', rx := rest,
                     delay_time := atoi input'\<rparr>))"

definition case_x :: "state \<Rightarrow> state option" where
  "case_x s =
     (case read_digits maxDigitfx (rx s) (inputfx s) 0 of
        None \<Rightarrow> None
      | Some (input, j, temp, rest) \<Rightarrow>
          let input' = input[unat j := 0];
              v = atoi input'
          in Some (s\<lparr>j_var := j, tempfx := temp, inputfx := input', rx := rest,
                     startX := (if sint maxfx < sint v then maxfx else v)\<rparr>))"

definition case_y :: "state \<Rightarrow> state option" where
  "case_y s =
     (case read_digits maxDigitfy (rx s) (inputfy s) 0 of
        None \<Rightarrow> None
      | Some (input, j, temp, rest) \<Rightarrow>
          let input' = input[unat j := 0];
              v = atoi input'
          in Some (s\<lparr>j_var := j, tempfy := temp, inputfy := input', rx := rest,
                     startY := (if sint maxfy < sint v then maxfy else v)\<rparr>))"

definition case_g :: "state \<Rightarrow> state option" where
  "case_g s =
     (case read_digits maxDigitgap (rx s) (inputgap s) 0 of
        None \<Rightarrow> None
      | Some (input, j, temp, rest) \<Rightarrow>
          let input' = input[unat j := 0];
              v = atoi input'
          in Some (s\<lparr>j_var := j, tempgap := temp, inputgap := input', rx := rest,
                     gap := (if sint maxgap < sint v then maxgap else v)\<rparr>))"

text \<open>
  \<^verbatim>\<open>switch(val)\<close>: \<^verbatim>\<open>'p'\<close> is 112, \<^verbatim>\<open>'x'\<close> 120, \<^verbatim>\<open>'y'\<close> 121, \<^verbatim>\<open>'g'\<close> 103,
  \<^verbatim>\<open>'u'\<close> 117, \<^verbatim>\<open>'e'\<close> 101. There is no default case.
\<close>

definition switch_val :: "state \<Rightarrow> state option" where
  "switch_val s =
     (if val s = 112 then case_p s
      else if val s = 120 then case_x s
      else if val s = 121 then case_y s
      else if val s = 103 then case_g s
      else if val s = 117 then Some (s\<lparr>direc := 0\<rparr>)
      else if val s = 101 then
        Some (emit (Write_PORTC 0) ((emit (Write_PORTL 0) (s\<lparr>direc := 2\<rparr>))
                \<lparr>PORTL := 0, PORTC := 0\<rparr>))
      else Some s)"

text \<open>
  Lines 57 to 133: when a byte is waiting, read it into \<^verbatim>\<open>val\<close>, run the
  \<^verbatim>\<open>switch\<close>, then print \<^verbatim>\<open>'a'\<close> (97) if \<^verbatim>\<open>direc\<close> is 0.
\<close>

definition interpreter :: "state \<Rightarrow> state option" where
  "interpreter s =
     (if Serial_available s then
        (case switch_val (s\<lparr>val := hd (rx s), rx := tl (rx s)\<rparr>) of
           None \<Rightarrow> None
         | Some s' \<Rightarrow> Some (if direc s' = 0 then emit (Serial_print 97) s' else s'))
      else Some s)"

subsection \<open>The scan engine (lines 134 to 159)\<close>

text \<open>
  \<^verbatim>\<open>for (i = 0; i < 256; i++) { PORTL = i; delayMicroseconds(delay_time);
  fes[i] = analogRead(A0); }\<close>: the body, and the loop from the current \<^verbatim>\<open>i\<close>.
\<close>

definition sample_body :: "state \<Rightarrow> state" where
  "sample_body s =
     (let s1 = emit (Write_PORTL (ucast (i_var s))) (s\<lparr>PORTL := ucast (i_var s)\<rparr>);
          s2 = emit (DelayMicroseconds (delay_time s1)) s1;
          (v, s3) = analogRead s2
      in s3\<lparr>fes := (fes s3)[nat (sint (i_var s3)) := v]\<rparr>)"

function sample_loop :: "state \<Rightarrow> state" where
  "sample_loop s =
     (if sint (i_var s) < 256
      then sample_loop ((sample_body s)\<lparr>i_var := i_var s + 1\<rparr>)
      else s)"
  by pat_completeness auto
termination
proof (relation "measure (\<lambda>s. nat (256 - sint (i_var s)))")
  fix s :: state
  assume a: "sint (i_var s) < 256"
  have "- (2 ^ 15) \<le> sint (i_var s)"
    using sint_ge [of "i_var s"] by simp
  with a have "sint (i_var s + 1) = sint (i_var s) + 1"
    by (simp add: sint_word_ariths signed_take_bit_int_eq_self)
  with a show "((sample_body s)\<lparr>i_var := i_var s + 1\<rparr>, s) \<in> measure (\<lambda>s. nat (256 - sint (i_var s)))"
    by simp
qed simp

text \<open>
  \<^verbatim>\<open>for (i = 0; i < 256; i++) { Serial.println(fes[i]); delayMicroseconds(50); }\<close>
\<close>

definition send_body :: "state \<Rightarrow> state" where
  "send_body s =
     emit (DelayMicroseconds 50) (emit (Serial_println (fes s ! nat (sint (i_var s)))) s)"

function send_loop :: "state \<Rightarrow> state" where
  "send_loop s =
     (if sint (i_var s) < 256
      then send_loop ((send_body s)\<lparr>i_var := i_var s + 1\<rparr>)
      else s)"
  by pat_completeness auto
termination
proof (relation "measure (\<lambda>s. nat (256 - sint (i_var s)))")
  fix s :: state
  assume a: "sint (i_var s) < 256"
  have "- (2 ^ 15) \<le> sint (i_var s)"
    using sint_ge [of "i_var s"] by simp
  with a have "sint (i_var s + 1) = sint (i_var s) + 1"
    by (simp add: sint_word_ariths signed_take_bit_int_eq_self)
  with a show "((send_body s)\<lparr>i_var := i_var s + 1\<rparr>, s) \<in> measure (\<lambda>s. nat (256 - sint (i_var s)))"
    by simp
qed simp

text \<open>The statements of the RUN branch, in the order of the source.\<close>

definition set_y :: "state \<Rightarrow> state" where
  "set_y s = emit (Delay 1) (emit (Write_PORTC (ucast (startY s))) (s\<lparr>PORTC := ucast (startY s)\<rparr>))"

definition sample_line :: "state \<Rightarrow> state" where
  "sample_line s = sample_loop (s\<lparr>i_var := 0\<rparr>)"

definition next_line :: "state \<Rightarrow> state" where
  "next_line s = s\<lparr>startY := startY s + gap s\<rparr>"

definition send_line :: "state \<Rightarrow> state" where
  "send_line s = send_loop (s\<lparr>i_var := 0\<rparr>)"

definition run_step :: "state \<Rightarrow> state" where
  "run_step s = send_line (next_line (sample_line (set_y s)))"

text \<open>The \<^verbatim>\<open>else\<close> branch: one conversion, printed, and a pause of 10 ms.\<close>

definition idle_step :: "state \<Rightarrow> state" where
  "idle_step s =
     (let (v, s1) = analogRead s;
          s2 = s1\<lparr>fes_signal := v\<rparr>
      in emit (Delay 10) (emit (Serial_println (fes_signal s2)) s2))"

definition scan_engine :: "state \<Rightarrow> state" where
  "scan_engine s = (if direc s = 0 then run_step s else idle_step s)"

subsection \<open>One pass of \<^verbatim>\<open>loop()\<close>, and several\<close>

definition loop :: "state \<Rightarrow> state option" where
  "loop s = (case interpreter s of None \<Rightarrow> None | Some s' \<Rightarrow> Some (scan_engine s'))"

fun loops :: "nat \<Rightarrow> state \<Rightarrow> state option" where
  "loops 0 s = Some s"
| "loops (Suc n) s = (case loop s of None \<Rightarrow> None | Some s' \<Rightarrow> loops n s')"

text \<open>
  The equations of the two loops are used one step at a time, not as rewrite rules.
\<close>

declare sample_loop.simps [simp del] send_loop.simps [simp del]

subsection \<open>Notions of the specification\<close>

text \<open>
  The arrays have the sizes of their declarations: \<^verbatim>\<open>char inputfx[4]\<close>,
  \<^verbatim>\<open>inputfy[4]\<close>, \<^verbatim>\<open>inputgap[4]\<close>, \<^verbatim>\<open>inputpoint[6]\<close>,
  \<^verbatim>\<open>int fes[256]\<close>.
\<close>

definition well_formed :: "state \<Rightarrow> bool" where
  "well_formed s =
     (length (inputfx s) = 4 \<and> length (inputfy s) = 4 \<and> length (inputgap s) = 4 \<and>
      length (inputpoint s) = 6 \<and> length (fes s) = 256)"

text \<open>
  The specification's reading of a payload (section 4.1, written from its words, to be
  compared with what the code computes): the decimal digits of the payload, in order, up
  to the capacity of the command; and the number that a string of digits denotes in
  base 10.
\<close>

definition spec_digits :: "nat \<Rightarrow> byte list \<Rightarrow> byte list" where
  "spec_digits capacity payload = take capacity (filter isdigit payload)"

definition spec_decimal :: "byte list \<Rightarrow> nat" where
  "spec_decimal ds = foldl (\<lambda>a d. 10 * a + (unat d - 48)) 0 ds"

text \<open>
  The configuration record of the specification (section 3): direction, startX, startY,
  lineGap, dwellMicros and lineBuffer.
\<close>

definition configuration ::
  "state \<Rightarrow> byte \<times> int16 \<times> int16 \<times> int16 \<times> int16 \<times> int16 list" where
  "configuration s = (direc s, startX s, startY s, gap s, delay_time s, fes s)"

text \<open>
  Counting in a trace: the acknowledgement bytes \<^verbatim>\<open>'a'\<close>, and the samples printed.
\<close>

definition acks :: "event list \<Rightarrow> nat" where
  "acks es = length (filter (\<lambda>e. e = Serial_print 97) es)"

fun is_println :: "event \<Rightarrow> bool" where
  "is_println (Serial_println v) = True"
| "is_println e = False"

definition samples_sent :: "event list \<Rightarrow> nat" where
  "samples_sent es = length (filter is_println es)"

text \<open>
  The traces that the specification describes (section 4.2): for the IDLE step one
  conversion, its value printed, a pause of 10 ms; for the RUN step the Y bus written and
  1 ms of pause, then for each X from 0 to 255 the X bus written, the dwell pause and one
  conversion, then the 256 values printed with 50 microseconds after each. The arguments
  are the value on the Y bus, the dwell time, the analog signal and the number of
  conversions made before.
\<close>

definition spec_idle_sample :: "(nat \<Rightarrow> int16) \<Rightarrow> nat \<Rightarrow> event list" where
  "spec_idle_sample signal c = [AnalogRead (signal c), Serial_println (signal c), Delay 10]"

definition spec_scan_line :: "byte \<Rightarrow> int16 \<Rightarrow> (nat \<Rightarrow> int16) \<Rightarrow> nat \<Rightarrow> event list" where
  "spec_scan_line y dwell signal c =
     [Write_PORTC y, Delay 1]
     @ concat (map (\<lambda>n. [Write_PORTL (of_nat n), DelayMicroseconds dwell,
                          AnalogRead (signal (c + n))]) [0..<256])
     @ concat (map (\<lambda>n. [Serial_println (signal (c + n)), DelayMicroseconds 50]) [0..<256])"

text \<open>Two states that differ at most in \<^verbatim>\<open>startX\<close>.\<close>

definition except_startX :: "state \<Rightarrow> state \<Rightarrow> bool" where
  "except_startX s t = (t = s\<lparr>startX := startX t\<rparr>)"

subsection \<open>Concrete states\<close>

text \<open>
  An analog input that always converts to zero, and the state at the top of the RUN branch
  when the host has set the Y origin \<open>y\<close> and the line gap \<open>g\<close> and sent
  \<^verbatim>\<open>u\<close>, and every byte has been read.
\<close>

definition quiet :: "nat \<Rightarrow> int16" where
  "quiet n = 0"

definition running :: "int16 \<Rightarrow> int16 \<Rightarrow> state" where
  "running y g = (initial_state [] quiet)\<lparr>direc := 0, startY := y, gap := g\<rparr>"

text \<open>The state in RUN mode, fresh otherwise, with bytes of the host waiting.\<close>

definition run_pending :: "byte list \<Rightarrow> state" where
  "run_pending bytes = (initial_state bytes quiet)\<lparr>direc := 0\<rparr>"

text \<open>
  The bytes of the frames \<^verbatim>\<open>x10\n\<close>, \<^verbatim>\<open>y20\n\<close>, \<^verbatim>\<open>g5\n\<close>,
  \<^verbatim>\<open>p1000\n\<close>, \<^verbatim>\<open>u\n\<close>.
\<close>

definition scenario :: "byte list" where
  "scenario = [120, 49, 48, 10, 121, 50, 48, 10, 103, 53, 10, 112, 49, 48, 48, 48, 10, 117, 10]"

section \<open>Auxiliary facts\<close>

subsection \<open>Conversions between the integer types\<close>

lemma ucast_of_nat_16_8: "ucast (of_nat k :: int16) = (of_nat k :: byte)"
  by (rule bit_word_eqI) (auto simp: bit_simps)

lemma sint_of_nat_16: "k < 256 \<Longrightarrow> sint (of_nat k :: int16) = int k"
  by (simp add: signed_of_nat signed_take_bit_int_eq_self)

subsection \<open>The two loops of the scan engine\<close>

text \<open>
  Both loops run from the current \<^verbatim>\<open>i\<close> to 256: their effect in closed form, by induction on
  the number of iterations left.
\<close>

lemma sample_body_simps:
  "i_var s = of_nat k \<Longrightarrow> k < 256 \<Longrightarrow>
   sample_body s =
     s\<lparr>PORTL := of_nat k, conversions := Suc (conversions s),
       fes := (fes s)[k := A0 s (conversions s)],
       out := out s @ [Write_PORTL (of_nat k), DelayMicroseconds (delay_time s),
                       AnalogRead (A0 s (conversions s))]\<rparr>"
  by (simp add: sample_body_def analogRead_def emit_def Let_def ucast_of_nat_16_8 sint_of_nat_16)

lemma sample_loop_closed:
  "i_var s = of_nat k \<Longrightarrow> k + m = 256 \<Longrightarrow> conversions s = c + k \<Longrightarrow>
   sample_loop s =
     s\<lparr>i_var := 256, PORTL := (if m = 0 then PORTL s else 255), conversions := c + 256,
       fes := fold (\<lambda>n xs. xs[n := A0 s (c + n)]) [k..<256] (fes s),
       out := out s @ concat (map (\<lambda>n. [Write_PORTL (of_nat n), DelayMicroseconds (delay_time s),
                       AnalogRead (A0 s (c + n))]) [k..<256])\<rparr>"
proof (induction m arbitrary: s k)
  case 0
  then have k: "k = 256" by simp
  with 0 have i: "i_var s = 256" by simp
  then have "sample_loop s = s" by (subst sample_loop.simps) simp
  with 0 k i show ?case by simp
next
  case (Suc m)
  then have k: "k < 256" by simp
  let ?s1 = "(sample_body s)\<lparr>i_var := i_var s + 1\<rparr>"
  have sb: "sample_body s = s\<lparr>PORTL := of_nat k, conversions := Suc (conversions s),
       fes := (fes s)[k := A0 s (conversions s)],
       out := out s @ [Write_PORTL (of_nat k), DelayMicroseconds (delay_time s),
                       AnalogRead (A0 s (conversions s))]\<rparr>"
    using Suc.prems(1) k by (rule sample_body_simps)
  have "sint (i_var s) < 256"
    using Suc.prems(1) k by (simp add: sint_of_nat_16)
  then have unf: "sample_loop s = sample_loop ?s1"
    by (subst sample_loop.simps) simp
  have ih: "sample_loop ?s1 = ?s1\<lparr>i_var := 256, PORTL := (if m = 0 then PORTL ?s1 else 255), conversions := c + 256,
       fes := fold (\<lambda>n xs. xs[n := A0 ?s1 (c + n)]) [Suc k..<256] (fes ?s1),
       out := out ?s1 @ concat (map (\<lambda>n. [Write_PORTL (of_nat n), DelayMicroseconds (delay_time ?s1),
                       AnalogRead (A0 ?s1 (c + n))]) [Suc k..<256])\<rparr>"
    apply (rule Suc.IH)
    using Suc.prems by (simp_all add: sb)
  have upt: "[k..<256] = k # [Suc k..<256]"
    using k by (simp add: upt_conv_Cons)
  have p: "m = 0 \<Longrightarrow> (of_nat k :: byte) = 255" using Suc.prems(2) by simp
  show ?case
    unfolding unf ih unfolding sb upt using Suc.prems p by simp
qed

lemma send_loop_closed:
  "i_var s = of_nat k \<Longrightarrow> k + m = 256 \<Longrightarrow>
   send_loop s =
     s\<lparr>i_var := 256,
       out := out s @ concat (map (\<lambda>n. [Serial_println (fes s ! n), DelayMicroseconds 50])
                                [k..<256])\<rparr>"
proof (induction m arbitrary: s k)
  case 0
  then have k: "k = 256" by simp
  with 0 have i: "i_var s = 256" by simp
  then have "send_loop s = s" by (subst send_loop.simps) simp
  with k i show ?case by simp
next
  case (Suc m)
  then have k: "k < 256" by simp
  let ?s1 = "(send_body s)\<lparr>i_var := i_var s + 1\<rparr>"
  have sb: "send_body s =
      s\<lparr>out := out s @ [Serial_println (fes s ! k), DelayMicroseconds 50]\<rparr>"
    using Suc.prems(1) k by (simp add: send_body_def emit_def sint_of_nat_16)
  have "sint (i_var s) < 256"
    using Suc.prems(1) k by (simp add: sint_of_nat_16)
  then have unf: "send_loop s = send_loop ?s1"
    by (subst send_loop.simps) simp
  have ih: "send_loop ?s1 = ?s1\<lparr>i_var := 256,
       out := out ?s1 @ concat (map (\<lambda>n. [Serial_println (fes ?s1 ! n), DelayMicroseconds 50])
                                [Suc k..<256])\<rparr>"
    apply (rule Suc.IH)
    using Suc.prems by (simp_all add: sb)
  have upt: "[k..<256] = k # [Suc k..<256]"
    using k by (simp add: upt_conv_Cons)
  show ?case
    unfolding unf ih unfolding sb upt by simp
qed

lemma fold_store_nth:
  "length xs = b \<Longrightarrow> a \<le> b \<Longrightarrow> n < b \<Longrightarrow>
   fold (\<lambda>n xs. xs[n := f n]) [a..<b] xs ! n = (if a \<le> n then f n else xs ! n)"
proof (induction "b - a" arbitrary: a xs)
  case 0
  then show ?case by simp
next
  case (Suc d)
  then have ab: "a < b" by simp
  then have upt: "[a..<b] = a # [Suc a..<b]" by (simp add: upt_conv_Cons)
  have "fold (\<lambda>n xs. xs[n := f n]) [Suc a..<b] (xs[a := f a]) ! n =
        (if Suc a \<le> n then f n else xs[a := f a] ! n)"
    using Suc ab by (intro Suc.hyps(1)) simp_all
  then show ?case
    using Suc.prems ab unfolding upt by (cases "n = a") (auto simp: nth_list_update)
qed

lemma length_fold_store:
  "length (fold (\<lambda>n xs. xs[n := f n]) ns xs) = length xs"
  by (induction ns arbitrary: xs) simp_all

lemma fold_store_all:
  "length xs = b \<Longrightarrow> fold (\<lambda>n xs. xs[n := f n]) [0..<b] xs = map f [0..<b]"
  by (rule nth_equalityI) (simp_all add: length_fold_store fold_store_nth)

subsection \<open>The digit loop\<close>

text \<open>
  On a payload followed by a line feed the loop returns: it has stored the digits of the
  payload, up to the capacity, from index \<^verbatim>\<open>j\<close> on, and has consumed the line feed.
\<close>

lemma byte_less: "k \<le> c \<Longrightarrow> c < 256 \<Longrightarrow> ((of_nat k :: byte) < of_nat c) = (k < c)"
  by (simp add: word_less_nat_alt unat_of_nat)

lemma unat_byte: "k < 256 \<Longrightarrow> unat (of_nat k :: byte) = k"
  by (simp add: unat_of_nat)

lemma read_digits_frame:
  "10 \<notin> set payload \<Longrightarrow> k \<le> c \<Longrightarrow> c < 256 \<Longrightarrow> c < length input \<Longrightarrow>
   read_digits (of_nat c) (payload @ 10 # rest) input (of_nat k) =
     Some (take k input @ spec_digits (c - k) payload
             @ drop (k + length (spec_digits (c - k) payload)) input,
           of_nat (k + length (spec_digits (c - k) payload)), 10, rest)"
proof (induction payload arbitrary: input k)
  case Nil
  then show ?case by (simp add: spec_digits_def)
next
  case (Cons b bs)
  then have b: "b \<noteq> 10" and bs: "10 \<notin> set bs" by auto
  show ?case
  proof (cases "isdigit b \<and> k < c")
    case True
    then have kc: "Suc k \<le> c" by simp
    have len: "c < length (input[k := b])" using Cons.prems by simp
    have d: "spec_digits (c - k) (b # bs) = b # spec_digits (c - Suc k) bs"
    proof -
      from True obtain m where m: "c - k = Suc m" by (cases "c - k") simp_all
      then have "c - Suc k = m" by simp
      with m True show ?thesis by (simp add: spec_digits_def)
    qed
    have upd: "take (Suc k) (input[k := b]) = take k input @ [b]"
      using Cons.prems True by (simp add: take_Suc_conv_app_nth)
    have "read_digits (of_nat c) ((b # bs) @ 10 # rest) input (of_nat k) =
          read_digits (of_nat c) (bs @ 10 # rest) (input[k := b]) (of_nat (Suc k))"
      using True b Cons.prems by (simp add: isdigit_def byte_less unat_byte add.commute)
    also have "\<dots> = Some (take (Suc k) (input[k := b]) @ spec_digits (c - Suc k) bs
             @ drop (Suc k + length (spec_digits (c - Suc k) bs)) (input[k := b]),
           of_nat (Suc k + length (spec_digits (c - Suc k) bs)), 10, rest)"
      using bs kc Cons.prems(3) len by (rule Cons.IH)
    finally show ?thesis
      unfolding d upd by simp
  next
    case False
    have d: "spec_digits (c - k) (b # bs) = spec_digits (c - k) bs"
      using False Cons.prems by (auto simp: spec_digits_def)
    have "read_digits (of_nat c) ((b # bs) @ 10 # rest) input (of_nat k) =
          read_digits (of_nat c) (bs @ 10 # rest) input (of_nat k)"
      using False b Cons.prems by (auto simp: isdigit_def byte_less unat_byte)
    then show ?thesis
      unfolding d using bs Cons.prems by (simp add: Cons.IH)
  qed
qed

subsection \<open>The library function on a string of digits\<close>

lemma isdigit_iff: "isdigit d \<longleftrightarrow> 48 \<le> unat d \<and> unat d \<le> 57"
proof
  assume d: "isdigit d"
  then have "0 \<le> sint d" by (simp add: isdigit_def)
  moreover have "sint d < 2 ^ 8" using sint_lt [of d] by simp
  ultimately have "uint d = sint d"
    by (simp add: uint_sint take_bit_int_eq_self)
  then have "int (unat d) = sint d" by simp
  with d show "48 \<le> unat d \<and> unat d \<le> 57"
    unfolding isdigit_def by linarith
next
  assume u: "48 \<le> unat d \<and> unat d \<le> 57"
  have "int (unat d) = uint d" by simp
  with u have "48 \<le> uint d" "uint d \<le> 57" by linarith+
  then have "- (2 ^ 7) \<le> uint d" "uint d < 2 ^ 7" by simp_all
  then have "sint d = uint d"
    by (simp add: sint_uint signed_take_bit_int_eq_self)
  then have "sint d = int (unat d)" by simp
  with u show "isdigit d"
    unfolding isdigit_def by linarith
qed

lemma digit_value: "isdigit d \<Longrightarrow> (ucast (d - 48) :: int16) = of_nat (unat d - 48)"
proof -
  assume "isdigit d"
  then have "48 \<le> unat d" by (simp add: isdigit_iff)
  then have "(48 :: byte) \<le> d" by (simp add: word_le_nat_alt)
  then have "unat (d - 48) = unat d - 48" by (simp add: unat_sub)
  moreover have "(ucast (d - 48) :: int16) = of_nat (unat (d - 48))"
    by (rule of_nat_unat [symmetric])
  ultimately show ?thesis by (simp only:)
qed

lemma atoi_digits_spec:
  "\<forall>d \<in> set ds. isdigit d \<Longrightarrow> \<not> isdigit t \<Longrightarrow>
   atoi_digits (of_nat a) (ds @ t # ts) = of_nat (foldl (\<lambda>a d. 10 * a + (unat d - 48)) a ds)"
proof (induction ds arbitrary: a)
  case Nil
  then show ?case by simp
next
  case (Cons d ds)
  then have d: "isdigit d" by simp
  have acc: "of_nat a * 10 + (ucast (d - 48) :: int16) = of_nat (10 * a + (unat d - 48))"
    by (simp add: digit_value [OF d])
  have "atoi_digits (of_nat a) ((d # ds) @ t # ts) =
        atoi_digits (of_nat (10 * a + (unat d - 48))) (ds @ t # ts)"
    using d by (simp only: append_Cons atoi_digits.simps if_True acc)
  also have "\<dots> = of_nat (foldl (\<lambda>a d. 10 * a + (unat d - 48)) (10 * a + (unat d - 48)) ds)"
    using Cons.prems by (intro Cons.IH) simp_all
  finally show ?case by simp
qed

lemma atoi_spec:
  "\<forall>d \<in> set ds. isdigit d \<Longrightarrow> atoi (ds @ 0 # ts) = of_nat (spec_decimal ds)"
proof (cases ds)
  case Nil
  then show ?thesis by (simp add: atoi_def isspace_def isdigit_def spec_decimal_def)
next
  case (Cons d ds')
  assume a: "\<forall>d \<in> set ds. isdigit d"
  with Cons have d: "isdigit d" by simp
  then have "\<not> isspace d" "d \<noteq> 45" "d \<noteq> 43"
    by (auto simp: isdigit_def isspace_def)
  then have "atoi (ds @ 0 # ts) = atoi_digits 0 (ds @ 0 # ts)"
    using Cons by (simp add: atoi_def)
  also have "\<dots> = of_nat (spec_decimal ds)"
    using atoi_digits_spec [OF a, of 0 0 ts] by (simp add: spec_decimal_def isdigit_def)
  finally show ?thesis .
qed

subsection \<open>The steps of the scan engine\<close>

lemma sample_line_closed:
  "sample_line s =
     s\<lparr>i_var := 256, PORTL := 255, conversions := conversions s + 256,
       fes := fold (\<lambda>n xs. xs[n := A0 s (conversions s + n)]) [0..<256] (fes s),
       out := out s @ concat (map (\<lambda>n. [Write_PORTL (of_nat n), DelayMicroseconds (delay_time s),
                       AnalogRead (A0 s (conversions s + n))]) [0..<256])\<rparr>"
  unfolding sample_line_def
  by (subst sample_loop_closed [of _ 0 256 "conversions s"]) simp_all

lemma send_line_closed:
  "send_line s =
     s\<lparr>i_var := 256,
       out := out s @ concat (map (\<lambda>n. [Serial_println (fes s ! n), DelayMicroseconds 50])
                                [0..<256])\<rparr>"
  unfolding send_line_def
  by (subst send_loop_closed [of _ 0 256]) simp_all

lemma set_y_closed:
  "set_y s = s\<lparr>PORTC := ucast (startY s),
                 out := out s @ [Write_PORTC (ucast (startY s)), Delay 1]\<rparr>"
  by (simp add: set_y_def emit_def)

lemma run_step_closed:
  "run_step s =
     s\<lparr>PORTC := ucast (startY s), i_var := 256, PORTL := 255,
       conversions := conversions s + 256,
       fes := fold (\<lambda>n xs. xs[n := A0 s (conversions s + n)]) [0..<256] (fes s),
       startY := startY s + gap s,
       out := out s @ [Write_PORTC (ucast (startY s)), Delay 1]
              @ concat (map (\<lambda>n. [Write_PORTL (of_nat n), DelayMicroseconds (delay_time s),
                                   AnalogRead (A0 s (conversions s + n))]) [0..<256])
              @ concat (map (\<lambda>n. [Serial_println
                   (fold (\<lambda>n xs. xs[n := A0 s (conversions s + n)]) [0..<256] (fes s) ! n),
                                   DelayMicroseconds 50]) [0..<256])\<rparr>"
  unfolding run_step_def send_line_closed next_line_def sample_line_closed set_y_closed
  by simp

lemma run_step_well_formed:
  "length (fes s) = 256 \<Longrightarrow>
   run_step s =
     s\<lparr>PORTC := ucast (startY s), i_var := 256, PORTL := 255,
       conversions := conversions s + 256,
       fes := map (\<lambda>n. A0 s (conversions s + n)) [0..<256],
       startY := startY s + gap s,
       out := out s @ [Write_PORTC (ucast (startY s)), Delay 1]
              @ concat (map (\<lambda>n. [Write_PORTL (of_nat n), DelayMicroseconds (delay_time s),
                                   AnalogRead (A0 s (conversions s + n))]) [0..<256])
              @ concat (map (\<lambda>n. [Serial_println (A0 s (conversions s + n)),
                                   DelayMicroseconds 50]) [0..<256])\<rparr>"
proof -
  assume len: "length (fes s) = 256"
  have f: "fold (\<lambda>n xs. xs[n := A0 s (conversions s + n)]) [0..<256] (fes s) =
           map (\<lambda>n. A0 s (conversions s + n)) [0..<256]"
    using len by (rule fold_store_all)
  have m: "map (\<lambda>n. [Serial_println (map (\<lambda>n. A0 s (conversions s + n)) [0..<256] ! n),
                      DelayMicroseconds 50]) [0..<256] =
           map (\<lambda>n. [Serial_println (A0 s (conversions s + n)), DelayMicroseconds 50]) [0..<256]"
    by (rule map_cong) simp_all
  show ?thesis
    unfolding run_step_closed f m ..
qed

lemma idle_step_closed:
  "idle_step s =
     s\<lparr>conversions := Suc (conversions s), fes_signal := A0 s (conversions s),
       out := out s @ [AnalogRead (A0 s (conversions s)),
                       Serial_println (A0 s (conversions s)), Delay 10]\<rparr>"
  by (simp add: idle_step_def analogRead_def emit_def Let_def)

subsection \<open>The payload as the specification reads it\<close>

lemma spec_digits_isdigit: "\<forall>d \<in> set (spec_digits c p). isdigit d"
  by (auto simp: spec_digits_def dest: in_set_takeD)

lemma length_spec_digits: "length (spec_digits c p) \<le> c"
  by (simp add: spec_digits_def)

lemma foldl_decimal_bound:
  "\<forall>d \<in> set ds. isdigit d \<Longrightarrow>
   Suc (foldl (\<lambda>a d. 10 * a + (unat d - 48)) a ds) \<le> Suc a * 10 ^ length ds"
proof (induction ds arbitrary: a)
  case Nil
  then show ?case by simp
next
  case (Cons d ds)
  then have "isdigit d" by simp
  then have "unat d \<le> 57" by (simp add: isdigit_iff)
  then have "unat d - 48 \<le> 9" by simp
  then have "Suc (10 * a + (unat d - 48)) \<le> Suc a * 10" by simp
  then have B: "Suc (10 * a + (unat d - 48)) * 10 ^ length ds \<le> (Suc a * 10) * 10 ^ length ds"
    by (rule mult_le_mono1)
  have A: "Suc (foldl (\<lambda>a d. 10 * a + (unat d - 48)) (10 * a + (unat d - 48)) ds)
      \<le> Suc (10 * a + (unat d - 48)) * 10 ^ length ds"
    using Cons.prems by (intro Cons.IH) simp
  have C: "(Suc a * 10) * 10 ^ length ds = Suc a * 10 ^ length (d # ds)"
    by (simp only: mult.assoc length_Cons power_Suc)
  from A B have "Suc (foldl (\<lambda>a d. 10 * a + (unat d - 48)) (10 * a + (unat d - 48)) ds)
      \<le> (Suc a * 10) * 10 ^ length ds"
    by (rule le_trans)
  then show ?case
    by (simp only: C foldl_Cons)
qed

lemma spec_decimal_less:
  "\<forall>d \<in> set ds. isdigit d \<Longrightarrow> spec_decimal ds < 10 ^ length ds"
  using foldl_decimal_bound [of ds 0] by (simp add: spec_decimal_def)

lemma spec_decimal_digits_less: "spec_decimal (spec_digits c p) < 10 ^ c"
proof -
  have "spec_decimal (spec_digits c p) < 10 ^ length (spec_digits c p)"
    by (rule spec_decimal_less) (rule spec_digits_isdigit)
  also have "\<dots> \<le> (10::nat) ^ c"
    by (rule power_increasing) (simp_all add: length_spec_digits)
  finally show ?thesis .
qed

lemma sint_of_nat_int16: "n < 32768 \<Longrightarrow> sint (of_nat n :: int16) = int n"
  by (simp add: signed_of_nat signed_take_bit_int_eq_self)

lemma read_then_terminate:
  assumes "10 \<notin> set payload" "c < 256" "c < length input"
  shows "read_digits (of_nat c) (payload @ 10 # rest) input 0 =
           Some (spec_digits c payload @ drop (length (spec_digits c payload)) input,
                 of_nat (length (spec_digits c payload)), 10, rest)"
    and "(spec_digits c payload @ drop (length (spec_digits c payload)) input)
           [unat (of_nat (length (spec_digits c payload)) :: byte) := 0] =
         spec_digits c payload @ 0 # drop (Suc (length (spec_digits c payload))) input"
    and "atoi (spec_digits c payload @ 0 # drop (Suc (length (spec_digits c payload))) input) =
         of_nat (spec_decimal (spec_digits c payload))"
proof -
  let ?ds = "spec_digits c payload"
  have len: "length ?ds \<le> c" by (rule length_spec_digits)
  show "read_digits (of_nat c) (payload @ 10 # rest) input 0 =
           Some (?ds @ drop (length ?ds) input, of_nat (length ?ds), 10, rest)"
    using read_digits_frame [OF assms(1) _ assms(2,3), of 0 rest] by simp
  have "unat (of_nat (length ?ds) :: byte) = length ?ds"
    using len assms(2) by (simp add: unat_byte)
  moreover have "drop (length ?ds) input = input ! length ?ds # drop (Suc (length ?ds)) input"
    using len assms(3) by (simp add: Cons_nth_drop_Suc)
  ultimately show "(?ds @ drop (length ?ds) input)[unat (of_nat (length ?ds) :: byte) := 0] =
         ?ds @ 0 # drop (Suc (length ?ds)) input"
    by (simp add: list_update_append)
  show "atoi (?ds @ 0 # drop (Suc (length ?ds)) input) = of_nat (spec_decimal ?ds)"
    by (rule atoi_spec) (rule spec_digits_isdigit)
qed

subsection \<open>The interpreter on a complete frame\<close>

lemma case_x_frame:
  assumes "length (inputfx s) = 4" "rx s = payload @ 10 # rest" "10 \<notin> set payload"
  shows "case_x s =
     Some (s\<lparr>j_var := of_nat (length (spec_digits 3 payload)), tempfx := 10,
             inputfx := spec_digits 3 payload @ 0
                          # drop (Suc (length (spec_digits 3 payload))) (inputfx s),
             rx := rest,
             startX := (if sint (255 :: int16) < sint (of_nat (spec_decimal (spec_digits 3 payload)) :: int16)
                        then 255 else of_nat (spec_decimal (spec_digits 3 payload)))\<rparr>)"
proof -
  have c: "(3::nat) < 256" "3 < length (inputfx s)" using assms(1) by simp_all
  note r = read_then_terminate [OF assms(3) c]
  have m: "maxDigitfx = of_nat 3" by (simp add: maxDigitfx_def)
  show ?thesis
    unfolding case_x_def assms(2) m r(1) by (simp add: r(2,3) maxfx_def Let_def)
qed

lemma case_y_frame:
  assumes "length (inputfy s) = 4" "rx s = payload @ 10 # rest" "10 \<notin> set payload"
  shows "case_y s =
     Some (s\<lparr>j_var := of_nat (length (spec_digits 3 payload)), tempfy := 10,
             inputfy := spec_digits 3 payload @ 0
                          # drop (Suc (length (spec_digits 3 payload))) (inputfy s),
             rx := rest,
             startY := (if sint (255 :: int16) < sint (of_nat (spec_decimal (spec_digits 3 payload)) :: int16)
                        then 255 else of_nat (spec_decimal (spec_digits 3 payload)))\<rparr>)"
proof -
  have c: "(3::nat) < 256" "3 < length (inputfy s)" using assms(1) by simp_all
  note r = read_then_terminate [OF assms(3) c]
  have m: "maxDigitfy = of_nat 3" by (simp add: maxDigitfy_def)
  show ?thesis
    unfolding case_y_def assms(2) m r(1) by (simp add: r(2,3) maxfy_def Let_def)
qed

lemma case_g_frame:
  assumes "length (inputgap s) = 4" "rx s = payload @ 10 # rest" "10 \<notin> set payload"
  shows "case_g s =
     Some (s\<lparr>j_var := of_nat (length (spec_digits 3 payload)), tempgap := 10,
             inputgap := spec_digits 3 payload @ 0
                          # drop (Suc (length (spec_digits 3 payload))) (inputgap s),
             rx := rest,
             gap := (if sint (128 :: int16) < sint (of_nat (spec_decimal (spec_digits 3 payload)) :: int16)
                        then 128 else of_nat (spec_decimal (spec_digits 3 payload)))\<rparr>)"
proof -
  have c: "(3::nat) < 256" "3 < length (inputgap s)" using assms(1) by simp_all
  note r = read_then_terminate [OF assms(3) c]
  have m: "maxDigitgap = of_nat 3" by (simp add: maxDigitgap_def)
  show ?thesis
    unfolding case_g_def assms(2) m r(1) by (simp add: r(2,3) maxgap_def Let_def)
qed

lemma case_p_frame:
  assumes "length (inputpoint s) = 6" "rx s = payload @ 10 # rest" "10 \<notin> set payload"
  shows "case_p s =
     Some (s\<lparr>j_var := of_nat (length (spec_digits 5 payload)), temppoint := 10,
             inputpoint := spec_digits 5 payload @ 0
                          # drop (Suc (length (spec_digits 5 payload))) (inputpoint s),
             rx := rest,
             delay_time := of_nat (spec_decimal (spec_digits 5 payload))\<rparr>)"
proof -
  have c: "(5::nat) < 256" "5 < length (inputpoint s)" using assms(1) by simp_all
  note r = read_then_terminate [OF assms(3) c]
  have m: "maxDigitpoint = of_nat 5" by (simp add: maxDigitpoint_def)
  show ?thesis
    unfolding case_p_def assms(2) m r(1) by (simp add: r(2,3) Let_def)
qed

lemma interpreter_Cons:
  "rx s = b # bs \<Longrightarrow>
   interpreter s =
     (case switch_val (s\<lparr>val := b, rx := bs\<rparr>) of
        None \<Rightarrow> None
      | Some s' \<Rightarrow> Some (if direc s' = 0 then emit (Serial_print 97) s' else s'))"
  by (simp add: interpreter_def Serial_available_def)

lemma clamp_255:
  "n < 1000 \<Longrightarrow>
   (if 255 < sint (of_nat n :: int16) then 255 else of_nat n)
     = (of_nat (min n 255) :: int16)"
  by (auto simp: sint_of_nat_int16 min_def)

lemma clamp_128:
  "n < 1000 \<Longrightarrow>
   (if 128 < sint (of_nat n :: int16) then 128 else of_nat n)
     = (of_nat (min n 128) :: int16)"
  by (auto simp: sint_of_nat_int16 min_def)

lemma interpreter_x:
  assumes "length (inputfx s) = 4" "rx s = 120 # payload @ 10 # rest" "10 \<notin> set payload"
  shows "interpreter s =
     Some ((if direc s = 0 then emit (Serial_print 97) else id)
       (s\<lparr>val := 120, j_var := of_nat (length (spec_digits 3 payload)), tempfx := 10,
          inputfx := spec_digits 3 payload @ 0
                       # drop (Suc (length (spec_digits 3 payload))) (inputfx s),
          rx := rest,
          startX := of_nat (min (spec_decimal (spec_digits 3 payload)) 255)\<rparr>))"
proof -
  let ?s1 = "s\<lparr>val := 120, rx := payload @ 10 # rest\<rparr>"
  have "length (inputfx ?s1) = 4" "rx ?s1 = payload @ 10 # rest"
    using assms(1) by simp_all
  note c = case_x_frame [OF this assms(3)]
  have "spec_decimal (spec_digits 3 payload) < 1000"
    using spec_decimal_digits_less [of 3 payload] by simp
  then have m: "(if 255 < sint (of_nat (spec_decimal (spec_digits 3 payload)) :: int16)
             then 255 else of_nat (spec_decimal (spec_digits 3 payload)) :: int16)
           = of_nat (min (spec_decimal (spec_digits 3 payload)) 255)"
    by (rule clamp_255)
  show ?thesis
    unfolding interpreter_Cons [OF assms(2)]
    by (simp add: switch_val_def c m)
qed

lemma interpreter_y:
  assumes "length (inputfy s) = 4" "rx s = 121 # payload @ 10 # rest" "10 \<notin> set payload"
  shows "interpreter s =
     Some ((if direc s = 0 then emit (Serial_print 97) else id)
       (s\<lparr>val := 121, j_var := of_nat (length (spec_digits 3 payload)), tempfy := 10,
          inputfy := spec_digits 3 payload @ 0
                       # drop (Suc (length (spec_digits 3 payload))) (inputfy s),
          rx := rest,
          startY := of_nat (min (spec_decimal (spec_digits 3 payload)) 255)\<rparr>))"
proof -
  let ?s1 = "s\<lparr>val := 121, rx := payload @ 10 # rest\<rparr>"
  have "length (inputfy ?s1) = 4" "rx ?s1 = payload @ 10 # rest"
    using assms(1) by simp_all
  note c = case_y_frame [OF this assms(3)]
  have "spec_decimal (spec_digits 3 payload) < 1000"
    using spec_decimal_digits_less [of 3 payload] by simp
  then have m: "(if 255 < sint (of_nat (spec_decimal (spec_digits 3 payload)) :: int16)
             then 255 else of_nat (spec_decimal (spec_digits 3 payload)) :: int16)
           = of_nat (min (spec_decimal (spec_digits 3 payload)) 255)"
    by (rule clamp_255)
  show ?thesis
    unfolding interpreter_Cons [OF assms(2)]
    by (simp add: switch_val_def c m)
qed

lemma interpreter_g:
  assumes "length (inputgap s) = 4" "rx s = 103 # payload @ 10 # rest" "10 \<notin> set payload"
  shows "interpreter s =
     Some ((if direc s = 0 then emit (Serial_print 97) else id)
       (s\<lparr>val := 103, j_var := of_nat (length (spec_digits 3 payload)), tempgap := 10,
          inputgap := spec_digits 3 payload @ 0
                       # drop (Suc (length (spec_digits 3 payload))) (inputgap s),
          rx := rest,
          gap := of_nat (min (spec_decimal (spec_digits 3 payload)) 128)\<rparr>))"
proof -
  let ?s1 = "s\<lparr>val := 103, rx := payload @ 10 # rest\<rparr>"
  have "length (inputgap ?s1) = 4" "rx ?s1 = payload @ 10 # rest"
    using assms(1) by simp_all
  note c = case_g_frame [OF this assms(3)]
  have "spec_decimal (spec_digits 3 payload) < 1000"
    using spec_decimal_digits_less [of 3 payload] by simp
  then have m: "(if 128 < sint (of_nat (spec_decimal (spec_digits 3 payload)) :: int16)
             then 128 else of_nat (spec_decimal (spec_digits 3 payload)) :: int16)
           = of_nat (min (spec_decimal (spec_digits 3 payload)) 128)"
    by (rule clamp_128)
  show ?thesis
    unfolding interpreter_Cons [OF assms(2)]
    by (simp add: switch_val_def c m)
qed

lemma interpreter_p:
  assumes "length (inputpoint s) = 6" "rx s = 112 # payload @ 10 # rest" "10 \<notin> set payload"
  shows "interpreter s =
     Some ((if direc s = 0 then emit (Serial_print 97) else id)
       (s\<lparr>val := 112, j_var := of_nat (length (spec_digits 5 payload)), temppoint := 10,
          inputpoint := spec_digits 5 payload @ 0
                       # drop (Suc (length (spec_digits 5 payload))) (inputpoint s),
          rx := rest,
          delay_time := of_nat (spec_decimal (spec_digits 5 payload))\<rparr>))"
proof -
  let ?s1 = "s\<lparr>val := 112, rx := payload @ 10 # rest\<rparr>"
  have "length (inputpoint ?s1) = 6" "rx ?s1 = payload @ 10 # rest"
    using assms(1) by simp_all
  note c = case_p_frame [OF this assms(3)]
  show ?thesis
    unfolding interpreter_Cons [OF assms(2)]
    by (simp add: switch_val_def c)
qed

lemma interpreter_u:
  "rx s = 117 # rest \<Longrightarrow>
   interpreter s = Some (emit (Serial_print 97) (s\<lparr>val := 117, rx := rest, direc := 0\<rparr>))"
  by (simp add: interpreter_Cons switch_val_def)

lemma interpreter_e:
  "rx s = 101 # rest \<Longrightarrow>
   interpreter s =
     Some (s\<lparr>val := 101, rx := rest, direc := 2, PORTL := 0, PORTC := 0,
             out := out s @ [Write_PORTL 0, Write_PORTC 0]\<rparr>)"
  by (simp add: interpreter_Cons switch_val_def emit_def)

lemma interpreter_other:
  "rx s = b # rest \<Longrightarrow> b \<notin> {112, 120, 121, 103, 117, 101} \<Longrightarrow>
   interpreter s =
     Some ((if direc s = 0 then emit (Serial_print 97) else id) (s\<lparr>val := b, rx := rest\<rparr>))"
  by (simp add: interpreter_Cons switch_val_def)

lemma interpreter_idle:
  "rx s = [] \<Longrightarrow> interpreter s = Some s"
  by (simp add: interpreter_def Serial_available_def)

lemma idle_step_counted:
  "idle_step s =
     s\<lparr>conversions := conversions s + 1, fes_signal := A0 s (conversions s),
       out := out s @ [AnalogRead (A0 s (conversions s)),
                       Serial_println (A0 s (conversions s)), Delay 10]\<rparr>"
  by (simp add: idle_step_closed)

lemma loops_numeral:
  "loops (numeral k) s =
     (case loop s of None \<Rightarrow> None | Some s' \<Rightarrow> loops (pred_numeral k) s')"
  by (simp add: numeral_eq_Suc)

subsection \<open>Counting events\<close>

lemma samples_sent_append: "samples_sent (xs @ ys) = samples_sent xs + samples_sent ys"
  by (simp add: samples_sent_def)

lemma samples_sent_pixels:
  "samples_sent (concat (map (\<lambda>n. [Write_PORTL (f n), DelayMicroseconds d, AnalogRead (g n)]) ns)) = 0"
  by (induction ns) (simp_all add: samples_sent_def)

lemma samples_sent_lines:
  "samples_sent (concat (map (\<lambda>n. [Serial_println (g n), DelayMicroseconds d]) ns)) = length ns"
  by (induction ns) (simp_all add: samples_sent_def)

lemma acks_append: "acks (xs @ ys) = acks xs + acks ys"
  by (simp add: acks_def)

lemma acks_pixels:
  "acks (concat (map (\<lambda>n. [Write_PORTL (f n), DelayMicroseconds d, AnalogRead (g n)]) ns)) = 0"
  by (induction ns) (simp_all add: acks_def)

lemma acks_lines:
  "acks (concat (map (\<lambda>n. [Serial_println (g n), DelayMicroseconds d]) ns)) = 0"
  by (induction ns) (simp_all add: acks_def)

lemma well_formed_running: "well_formed (running y g)"
  by (simp add: running_def initial_state_def well_formed_def)

lemma uint_ucast_int16: "uint (ucast (w :: int16) :: byte) = sint w mod 256"
proof -
  have "uint (ucast w :: byte) = take_bit 8 (uint w)"
    by (simp add: unsigned_ucast_eq)
  also have "\<dots> = uint w mod 256"
    by (simp add: take_bit_eq_mod)
  also have "uint w = sint w mod 65536"
    by (simp add: uint_sint take_bit_eq_mod)
  also have "sint w mod 65536 mod 256 = sint w mod 256"
    by (rule mod_mod_cancel) simp
  finally show ?thesis .
qed

subsection \<open>Independence of startX\<close>

lemma case_p_startX:
  "case_p (s\<lparr>startX := v\<rparr>) = map_option (\<lambda>s'. s'\<lparr>startX := v\<rparr>) (case_p s)"
  by (simp add: case_p_def Let_def split: option.splits)

lemma case_y_startX:
  "case_y (s\<lparr>startX := v\<rparr>) = map_option (\<lambda>s'. s'\<lparr>startX := v\<rparr>) (case_y s)"
  by (simp add: case_y_def Let_def split: option.splits)

lemma case_g_startX:
  "case_g (s\<lparr>startX := v\<rparr>) = map_option (\<lambda>s'. s'\<lparr>startX := v\<rparr>) (case_g s)"
  by (simp add: case_g_def Let_def split: option.splits)

lemma case_x_startX:
  "case_x (s\<lparr>startX := v\<rparr>) = case_x s"
  by (simp add: case_x_def Let_def split: option.splits)

lemma switch_val_startX:
  "rel_option except_startX (switch_val s) (switch_val (s\<lparr>startX := v\<rparr>))"
proof -
  have "rel_option except_startX (case_x s) (case_x s)"
    by (cases "case_x s") (simp_all add: except_startX_def)
  moreover have "rel_option except_startX c (map_option (\<lambda>s'. s'\<lparr>startX := v\<rparr>) c)" for c
    by (cases c) (simp_all add: except_startX_def)
  ultimately show ?thesis
    by (simp add: switch_val_def case_p_startX case_x_startX case_y_startX case_g_startX)
       (simp add: except_startX_def emit_def)
qed

lemma interpreter_startX:
  "rel_option except_startX (interpreter s) (interpreter (s\<lparr>startX := v\<rparr>))"
proof (cases "rx s")
  case Nil
  then show ?thesis
    by (simp add: interpreter_def Serial_available_def except_startX_def)
next
  case (Cons b bs)
  let ?s1 = "s\<lparr>val := b, rx := bs\<rparr>"
  have u: "s\<lparr>startX := v, val := b, rx := bs\<rparr> = ?s1\<lparr>startX := v\<rparr>" by simp
  note r = switch_val_startX [of ?s1 v]
  show ?thesis
  proof (cases "switch_val ?s1")
    case None
    with r Cons show ?thesis
      by (cases "switch_val (?s1\<lparr>startX := v\<rparr>)")
         (simp_all add: interpreter_def Serial_available_def u)
  next
    case (Some s2)
    with r obtain t2 where t: "switch_val (?s1\<lparr>startX := v\<rparr>) = Some t2" "except_startX s2 t2"
      by (cases "switch_val (?s1\<lparr>startX := v\<rparr>)") simp_all
    from t(2) obtain w where e: "t2 = s2\<lparr>startX := w\<rparr>"
      unfolding except_startX_def ..
    have d: "direc t2 = direc s2" unfolding e by simp
    have "except_startX (emit (Serial_print 97) s2) (emit (Serial_print 97) t2)"
      unfolding e by (simp add: except_startX_def emit_def)
    with Some t d Cons show ?thesis
      by (simp add: interpreter_def Serial_available_def u)
  qed
qed

lemma scan_engine_startX:
  "scan_engine (s\<lparr>startX := v\<rparr>) = (scan_engine s)\<lparr>startX := v\<rparr>"
  by (simp add: scan_engine_def run_step_closed idle_step_closed)

lemma loop_startX:
  "rel_option except_startX (loop s) (loop (s\<lparr>startX := v\<rparr>))"
proof -
  note r = interpreter_startX [of s v]
  show ?thesis
  proof (cases "interpreter s")
    case None
    with r show ?thesis by (simp add: loop_def)
  next
    case (Some s1)
    with r obtain t1 where t: "interpreter (s\<lparr>startX := v\<rparr>) = Some t1" "except_startX s1 t1"
      by (cases "interpreter (s\<lparr>startX := v\<rparr>)") simp_all
    then have "t1 = s1\<lparr>startX := startX t1\<rparr>" by (simp add: except_startX_def)
    then have "scan_engine t1 = (scan_engine s1)\<lparr>startX := startX t1\<rparr>"
      using scan_engine_startX [where s = s1 and v = "startX t1"] by simp
    then have "except_startX (scan_engine s1) (scan_engine t1)"
      by (simp add: except_startX_def)
    with Some t show ?thesis by (simp add: loop_def)
  qed
qed

lemma loops_startX:
  "except_startX s t \<Longrightarrow> rel_option except_startX (loops n s) (loops n t)"
proof (induction n arbitrary: s t)
  case 0
  then show ?case by simp
next
  case (Suc n)
  then have t: "t = s\<lparr>startX := startX t\<rparr>" by (simp add: except_startX_def)
  note r = loop_startX [of s "startX t"]
  show ?case
  proof (cases "loop s")
    case None
    with r t show ?thesis by (cases "loop t") simp_all
  next
    case (Some s1)
    with r t obtain t1 where t1: "loop t = Some t1" "except_startX s1 t1"
      by (cases "loop t") simp_all
    with Some Suc.IH [OF t1(2)] show ?thesis by simp
  qed
qed

subsection \<open>Acknowledgements\<close>

lemma switch_val_out:
  "switch_val s = Some s1 \<Longrightarrow> \<exists>t. out s1 = out s @ t \<and> acks t = 0"
  by (auto simp: switch_val_def case_p_def case_x_def case_y_def case_g_def emit_def acks_def
      Let_def split: if_splits option.splits)

lemma scan_engine_out:
  "\<exists>t. out (scan_engine s) = out s @ t \<and> acks t = 0 \<and> direc (scan_engine s) = direc s"
  by (simp add: scan_engine_def run_step_closed idle_step_closed acks_append acks_pixels acks_lines)
     (simp add: acks_def)

lemma well_formed_initial: "well_formed (initial_state bytes signal)"
  by (simp add: initial_state_def well_formed_def)

subsection \<open>The payloads of the examples\<close>

lemma decimal_evals:
  "spec_decimal (spec_digits 3 [51, 48, 48]) = 300"
  "spec_decimal (spec_digits 3 [50, 48, 48]) = 200"
  "spec_decimal (spec_digits 3 [49, 97, 50]) = 12"
  "spec_decimal (spec_digits 5 [49, 52, 48, 48]) = 1400"
  "spec_decimal (spec_digits 5 [52, 48, 48, 48, 48]) = 40000"
  "spec_decimal (spec_digits 3 [49, 48]) = 10"
  "spec_decimal (spec_digits 3 [50, 48]) = 20"
  "spec_decimal (spec_digits 3 [53]) = 5"
  "spec_decimal (spec_digits 5 [49, 48, 48, 48]) = 1000"
  by (simp_all add: spec_digits_def spec_decimal_def isdigit_iff)

lemmas scenario_steps =
  loops_numeral loop_def scan_engine_def idle_step_counted run_step_well_formed
  interpreter_x [where payload = "[49, 48]"
    and rest = "[121, 50, 48, 10, 103, 53, 10, 112, 49, 48, 48, 48, 10, 117, 10]"]
  interpreter_y [where payload = "[50, 48]" and rest = "[103, 53, 10, 112, 49, 48, 48, 48, 10, 117, 10]"]
  interpreter_g [where payload = "[53]" and rest = "[112, 49, 48, 48, 48, 10, 117, 10]"]
  interpreter_p [where payload = "[49, 48, 48, 48]" and rest = "[117, 10]"]
  interpreter_u [where rest = "[10]"]
  interpreter_other [where b = 10 and rest = "[]"]
  initial_state_def scenario_def decimal_evals emit_def spec_idle_sample_def spec_scan_line_def

lemma four: "4 + n = Suc (Suc (Suc (Suc n)))"
  by simp

lemma scenario_after_4: "\<exists>s4. loops 4 (initial_state scenario signal) = Some s4
     \<and> direc s4 = 2 \<and> startX s4 = 10 \<and> startY s4 = 20 \<and> gap s4 = 5 \<and> delay_time s4 = 1000
     \<and> out s4 = [Write_PORTL 0, Write_PORTC 0] @ spec_idle_sample signal 0
           @ spec_idle_sample signal 1 @ spec_idle_sample signal 2 @ spec_idle_sample signal 3"
  apply (simp add: scenario_steps)
  apply (simp only: numeral_2_eq_2 numeral_3_eq_3 One_nat_def simp_thms)
  done

lemma scenario_after_5: "\<exists>s5. loops 5 (initial_state scenario signal) = Some s5
     \<and> out s5 = ([Write_PORTL 0, Write_PORTC 0] @ spec_idle_sample signal 0
           @ spec_idle_sample signal 1 @ spec_idle_sample signal 2 @ spec_idle_sample signal 3)
           @ Serial_print 97 # spec_scan_line 20 1000 signal 4
     \<and> PORTC s5 = 20 \<and> startY s5 = 25"
  apply (simp add: scenario_steps)
  apply (simp only: four numeral_2_eq_2 numeral_3_eq_3 One_nat_def simp_thms)
  done

lemma scenario_after_6: "\<exists>s6. loops 6 (initial_state scenario signal) = Some s6
     \<and> out s6 = (([Write_PORTL 0, Write_PORTC 0] @ spec_idle_sample signal 0
           @ spec_idle_sample signal 1 @ spec_idle_sample signal 2 @ spec_idle_sample signal 3)
           @ Serial_print 97 # spec_scan_line 20 1000 signal 4)
           @ Serial_print 97 # spec_scan_line 25 1000 signal 260
     \<and> PORTC s6 = 25"
  apply (simp add: scenario_steps)
  apply (simp only: four numeral_2_eq_2 numeral_3_eq_3 One_nat_def simp_thms)
  done

subsection \<open>The array sizes are invariant\<close>

text \<open>
  Every pass of the loop that returns keeps the sizes of the arrays, so every state that
  the sketch reaches from start-up is well formed. Without a line feed the digit loop
  does not return.
\<close>

lemma read_digits_length:
  "read_digits maxDigit bytes input j = Some (input', j', temp, rest) \<Longrightarrow>
   length input' = length input"
  by (induction bytes arbitrary: input j) (auto split: if_splits)

lemma read_digits_stalls:
  "10 \<notin> set bytes \<Longrightarrow> read_digits maxDigit bytes input j = None"
  by (induction bytes arbitrary: input j) auto

lemma switch_val_well_formed:
  "well_formed s \<Longrightarrow> switch_val s = Some s' \<Longrightarrow> well_formed s'"
  by (auto simp: switch_val_def case_p_def case_x_def case_y_def case_g_def emit_def
      well_formed_def Let_def dest: read_digits_length split: if_splits option.splits)

lemma interpreter_well_formed:
  "well_formed s \<Longrightarrow> interpreter s = Some s' \<Longrightarrow> well_formed s'"
proof -
  assume w: "well_formed s" and i: "interpreter s = Some s'"
  show ?thesis
  proof (cases "Serial_available s")
    case False
    with i w show ?thesis by (simp add: interpreter_def)
  next
    case True
    with i obtain s1 where sw: "switch_val (s\<lparr>val := hd (rx s), rx := tl (rx s)\<rparr>) = Some s1"
      and s': "s' = (if direc s1 = 0 then emit (Serial_print 97) s1 else s1)"
      by (auto simp: interpreter_def split: option.splits)
    have "well_formed (s\<lparr>val := hd (rx s), rx := tl (rx s)\<rparr>)"
      using w by (simp add: well_formed_def)
    then have "well_formed s1" using sw by (rule switch_val_well_formed)
    then show ?thesis unfolding s' by (simp add: well_formed_def emit_def)
  qed
qed

lemma scan_engine_well_formed:
  "well_formed s \<Longrightarrow> well_formed (scan_engine s)"
  by (simp add: scan_engine_def run_step_closed idle_step_closed well_formed_def
      length_fold_store)

lemma loop_well_formed:
  "well_formed s \<Longrightarrow> loop s = Some s' \<Longrightarrow> well_formed s'"
  by (auto simp: loop_def split: option.splits
      intro: scan_engine_well_formed interpreter_well_formed)

lemma loops_well_formed:
  "well_formed s \<Longrightarrow> loops n s = Some s' \<Longrightarrow> well_formed s'"
  by (induction n arbitrary: s) (auto split: option.splits dest: loop_well_formed)


section \<open>The claims\<close>

text \<open>
  Claim C1, as the code has it. In a pass of the loop in RUN mode (with the arrays of their
  declared sizes) the scan engine runs the four phases of the source in their order. It
  writes the Y bus once and pauses 1 ms; for X = 0, 1, ..., 255 in ascending order it
  writes X to the X bus, pauses for the dwell time and converts once, which makes 256
  conversions; then it advances the Y origin by the line gap; and only then it prints the
  256 values of the line, in the order of X. So no sample has been printed when the Y
  origin advances, and 256 have been printed when the pass ends. The whole trace of the
  pass is the scan line of the specification.
\<close>

theorem run_line_order:
  assumes "direc s = 0" and "well_formed s"
  shows "scan_engine s = send_line (next_line (sample_line (set_y s)))
    \<and> out (sample_line (set_y s)) =
        out s @ [Write_PORTC (ucast (startY s)), Delay 1]
        @ concat (map (\<lambda>n. [Write_PORTL (of_nat n), DelayMicroseconds (delay_time s),
                             AnalogRead (A0 s (conversions s + n))]) [0..<256])
    \<and> startY (sample_line (set_y s)) = startY s
    \<and> next_line (sample_line (set_y s)) =
        (sample_line (set_y s))\<lparr>startY := startY s + gap s\<rparr>
    \<and> out (scan_engine s) =
        out (sample_line (set_y s))
        @ concat (map (\<lambda>n. [Serial_println (A0 s (conversions s + n)), DelayMicroseconds 50])
                    [0..<256])
    \<and> out (scan_engine s) =
        out s @ spec_scan_line (ucast (startY s)) (delay_time s) (A0 s) (conversions s)
    \<and> samples_sent (out (sample_line (set_y s))) = samples_sent (out s)
    \<and> samples_sent (out (scan_engine s)) = samples_sent (out s) + 256
    \<and> conversions (scan_engine s) = conversions s + 256
    \<and> startY (scan_engine s) = startY s + gap s
    \<and> PORTC (scan_engine s) = ucast (startY s)"
proof -
  have len: "length (fes s) = 256" using assms(2) by (simp add: well_formed_def)
  have a: "scan_engine s = send_line (next_line (sample_line (set_y s)))"
    using assms(1) by (simp add: scan_engine_def run_step_def)
  have r: "scan_engine s = run_step s"
    using assms(1) by (simp add: scan_engine_def)
  have b: "out (sample_line (set_y s)) =
        out s @ [Write_PORTC (ucast (startY s)), Delay 1]
        @ concat (map (\<lambda>n. [Write_PORTL (of_nat n), DelayMicroseconds (delay_time s),
                             AnalogRead (A0 s (conversions s + n))]) [0..<256])"
    by (simp add: sample_line_closed set_y_closed)
  have c: "startY (sample_line (set_y s)) = startY s"
    by (simp add: sample_line_closed set_y_closed)
  have d: "next_line (sample_line (set_y s)) =
        (sample_line (set_y s))\<lparr>startY := startY s + gap s\<rparr>"
    by (simp add: next_line_def sample_line_closed set_y_closed)
  have e: "out (scan_engine s) =
        out (sample_line (set_y s))
        @ concat (map (\<lambda>n. [Serial_println (A0 s (conversions s + n)), DelayMicroseconds 50])
                    [0..<256])"
    unfolding r b by (simp add: run_step_well_formed [OF len])
  have e': "out (scan_engine s) =
        out s @ spec_scan_line (ucast (startY s)) (delay_time s) (A0 s) (conversions s)"
    unfolding r by (simp add: run_step_well_formed [OF len] spec_scan_line_def)
  have f: "samples_sent (out (sample_line (set_y s))) = samples_sent (out s)"
    unfolding b by (simp add: samples_sent_append samples_sent_pixels) (simp add: samples_sent_def)
  have g: "samples_sent (out (scan_engine s)) = samples_sent (out s) + 256"
    unfolding e by (simp add: samples_sent_append samples_sent_lines f)
  have h: "startY (scan_engine s) = startY s + gap s" "PORTC (scan_engine s) = ucast (startY s)"
    "conversions (scan_engine s) = conversions s + 256"
    unfolding r by (simp_all add: run_step_closed)
  from a b c d e e' f g h show ?thesis by (simp only: simp_thms)
qed

text \<open>
  The theorem at the state in RUN mode with Y origin 20 and line gap 5.
\<close>

theorem run_line_order_witness:
  "direc (running 20 5) = 0 \<and> well_formed (running 20 5)
   \<and> startY (sample_line (set_y (running 20 5))) = 20
   \<and> samples_sent (out (scan_engine (running 20 5))) = 256
   \<and> startY (scan_engine (running 20 5)) = 25
   \<and> PORTC (scan_engine (running 20 5)) = 20"
proof -
  have d: "direc (running 20 5) = 0" by (simp add: running_def)
  have w: "well_formed (running 20 5)" by (rule well_formed_running)
  have o: "samples_sent (out (running 20 5)) = 0"
    "startY (running 20 5) = 20" "gap (running 20 5) = 5"
    by (simp_all add: running_def initial_state_def samples_sent_def)
  from run_line_order [OF d w]
  have "startY (sample_line (set_y (running 20 5))) = startY (running 20 5)"
    and "samples_sent (out (scan_engine (running 20 5))) = samples_sent (out (running 20 5)) + 256"
    and "startY (scan_engine (running 20 5)) = startY (running 20 5) + gap (running 20 5)"
    and "PORTC (scan_engine (running 20 5)) = ucast (startY (running 20 5))"
    by blast+
  with d w show ?thesis
    by (simp add: o)
qed

text \<open>
  Against C1 as it is worded (256 samples emitted before the Y origin advances): in RUN mode
  with Y origin 20 and line gap 5, the Y origin is 20 when the sampling loop has ended and
  25 after the next statement, and at that point no sample has been printed.
\<close>

theorem advance_precedes_emission:
  "startY (next_line (sample_line (set_y (running 20 5)))) = 25
   \<and> startY (sample_line (set_y (running 20 5))) = 20
   \<and> samples_sent (out (next_line (sample_line (set_y (running 20 5))))) = 0
   \<and> samples_sent (out (next_line (sample_line (set_y (running 20 5))))) \<noteq> 256"
proof -
  have o: "samples_sent (out (running 20 5)) = 0"
    "startY (running 20 5) = 20" "gap (running 20 5) = 5"
    by (simp_all add: running_def initial_state_def samples_sent_def)
  have "samples_sent (out (sample_line (set_y (running 20 5)))) = 0"
    by (simp add: sample_line_closed set_y_closed samples_sent_append samples_sent_pixels o)
       (simp add: samples_sent_def)
  then show ?thesis
    by (simp add: next_line_def sample_line_closed set_y_closed o)
qed

text \<open>
  Claim C2. When a frame of a parameter command is waiting (the tag, a payload without line
  feed, a line feed), the interpreter returns, and the value it stores is the smaller of
  the parsed value and the ceiling: 255 for \<^verbatim>\<open>x\<close> and \<^verbatim>\<open>y\<close>, 128 for
  \<^verbatim>\<open>g\<close>. So it is never above the ceiling and never above the parsed value. For
  \<^verbatim>\<open>p\<close> the value stored is the parsed value itself. The parsed value is what
  \<^verbatim>\<open>atoi\<close> returns on the digit array; for \<^verbatim>\<open>x\<close>, \<^verbatim>\<open>y\<close> and \<^verbatim>\<open>g\<close> it
  is the number that the first three digits of the payload denote.
\<close>

theorem parameter_ceilings:
  assumes "well_formed s" and "rx s = tag # payload @ 10 # rest" and "10 \<notin> set payload"
  shows "(tag = 120 \<longrightarrow> (\<exists>s'. interpreter s = Some s'
            \<and> sint (startX s') = min (sint (atoi (inputfx s'))) 255
            \<and> sint (startX s') = min (int (spec_decimal (spec_digits 3 payload))) 255))
    \<and> (tag = 121 \<longrightarrow> (\<exists>s'. interpreter s = Some s'
            \<and> sint (startY s') = min (sint (atoi (inputfy s'))) 255
            \<and> sint (startY s') = min (int (spec_decimal (spec_digits 3 payload))) 255))
    \<and> (tag = 103 \<longrightarrow> (\<exists>s'. interpreter s = Some s'
            \<and> sint (gap s') = min (sint (atoi (inputgap s'))) 128
            \<and> sint (gap s') = min (int (spec_decimal (spec_digits 3 payload))) 128))
    \<and> (tag = 112 \<longrightarrow> (\<exists>s'. interpreter s = Some s'
            \<and> delay_time s' = atoi (inputpoint s')))"
proof -
  let ?n = "spec_decimal (spec_digits 3 payload)"
  have n: "?n < 1000" using spec_decimal_digits_less [of 3 payload] by simp
  then have sn: "sint (of_nat ?n :: int16) = int ?n" by (simp add: sint_of_nat_int16)
  have "min ?n 255 < 32768" "min ?n 128 < 32768" using n by simp_all
  then have sm: "sint (of_nat (min ?n 255) :: int16) = min (int ?n) 255"
    "sint (of_nat (min ?n 128) :: int16) = min (int ?n) 128"
    by (simp_all add: sint_of_nat_int16)
  have a3: "atoi (spec_digits 3 payload @ 0 # xs) = of_nat ?n" for xs
    by (rule atoi_spec) (rule spec_digits_isdigit)
  have a5: "atoi (spec_digits 5 payload @ 0 # xs) = of_nat (spec_decimal (spec_digits 5 payload))" for xs
    by (rule atoi_spec) (rule spec_digits_isdigit)
  have len: "length (inputfx s) = 4" "length (inputfy s) = 4" "length (inputgap s) = 4"
    "length (inputpoint s) = 6"
    using assms(1) by (simp_all add: well_formed_def)
  have x: "\<exists>s'. interpreter s = Some s'
            \<and> sint (startX s') = min (sint (atoi (inputfx s'))) 255
            \<and> sint (startX s') = min (int ?n) 255" if "tag = 120"
    using interpreter_x [OF len(1) assms(2) [unfolded that] assms(3)]
    by (simp add: emit_def a3 sn sm)
  have y: "\<exists>s'. interpreter s = Some s'
            \<and> sint (startY s') = min (sint (atoi (inputfy s'))) 255
            \<and> sint (startY s') = min (int ?n) 255" if "tag = 121"
    using interpreter_y [OF len(2) assms(2) [unfolded that] assms(3)]
    by (simp add: emit_def a3 sn sm)
  have g: "\<exists>s'. interpreter s = Some s'
            \<and> sint (gap s') = min (sint (atoi (inputgap s'))) 128
            \<and> sint (gap s') = min (int ?n) 128" if "tag = 103"
    using interpreter_g [OF len(3) assms(2) [unfolded that] assms(3)]
    by (simp add: emit_def a3 sn sm)
  have p: "\<exists>s'. interpreter s = Some s' \<and> delay_time s' = atoi (inputpoint s')" if "tag = 112"
    using interpreter_p [OF len(4) assms(2) [unfolded that] assms(3)]
    by (simp add: emit_def a5)
  from x y g p show ?thesis by blast
qed

text \<open>
  The theorem at \<^verbatim>\<open>x300\n\<close> and at \<^verbatim>\<open>g200\n\<close> after start-up: the X origin
  becomes 255 and the gap 128.
\<close>

theorem parameter_ceilings_witness:
  "well_formed (initial_state [120, 51, 48, 48, 10] quiet)
   \<and> rx (initial_state [120, 51, 48, 48, 10] quiet) = 120 # [51, 48, 48] @ 10 # []
   \<and> 10 \<notin> set [51, 48, 48 :: byte]
   \<and> (\<exists>s'. interpreter (initial_state [120, 51, 48, 48, 10] quiet) = Some s'
          \<and> sint (startX s') = 255)
   \<and> (\<exists>s'. interpreter (initial_state [103, 50, 48, 48, 10] quiet) = Some s'
          \<and> sint (gap s') = 128)"
proof -
  have w: "well_formed (initial_state bytes quiet)" for bytes
    by (rule well_formed_initial)
  have r: "rx (initial_state [120, 51, 48, 48, 10] quiet) = 120 # [51, 48, 48] @ 10 # []"
    "rx (initial_state [103, 50, 48, 48, 10] quiet) = 103 # [50, 48, 48] @ 10 # []"
    by (simp_all add: initial_state_def)
  have n: "10 \<notin> set [51, 48, 48 :: byte]" "10 \<notin> set [50, 48, 48 :: byte]" by simp_all
  from parameter_ceilings [OF w r(1) n(1)]
  have x: "\<exists>s'. interpreter (initial_state [120, 51, 48, 48, 10] quiet) = Some s'
          \<and> sint (startX s') = 255"
    by (simp add: decimal_evals) blast
  from parameter_ceilings [OF w r(2) n(2)]
  have g: "\<exists>s'. interpreter (initial_state [103, 50, 48, 48, 10] quiet) = Some s'
          \<and> sint (gap s') = 128"
    by (simp add: decimal_evals) blast
  from w r(1) n(1) x g show ?thesis by (simp only: simp_thms)
qed

text \<open>
  Claim C3, as the code has it. When a frame of a parameter command is waiting, the
  interpreter reads it up to and including the line feed, and the parsed value is the
  number denoted in base 10 by the decimal digits of the payload, in order, up to the
  capacity (3 for \<^verbatim>\<open>x\<close>, \<^verbatim>\<open>y\<close>, \<^verbatim>\<open>g\<close>; 5 for \<^verbatim>\<open>p\<close>); every
  other byte and every later digit is dropped, and a payload without digits gives zero.
  For \<^verbatim>\<open>x\<close>, \<^verbatim>\<open>y\<close> and \<^verbatim>\<open>g\<close> this holds always. For \<^verbatim>\<open>p\<close> the parsed
  value is a 16-bit \<^verbatim>\<open>int\<close>: it is that number whenever the number is at most 32767.
\<close>

theorem parsed_value_decimal:
  assumes "well_formed s" and "rx s = tag # payload @ 10 # rest" and "10 \<notin> set payload"
  shows "(tag = 120 \<longrightarrow> (\<exists>s'. interpreter s = Some s' \<and> rx s' = rest
            \<and> sint (atoi (inputfx s')) = int (spec_decimal (spec_digits 3 payload))))
    \<and> (tag = 121 \<longrightarrow> (\<exists>s'. interpreter s = Some s' \<and> rx s' = rest
            \<and> sint (atoi (inputfy s')) = int (spec_decimal (spec_digits 3 payload))))
    \<and> (tag = 103 \<longrightarrow> (\<exists>s'. interpreter s = Some s' \<and> rx s' = rest
            \<and> sint (atoi (inputgap s')) = int (spec_decimal (spec_digits 3 payload))))
    \<and> (tag = 112 \<longrightarrow> (\<exists>s'. interpreter s = Some s' \<and> rx s' = rest
            \<and> delay_time s' = atoi (inputpoint s')
            \<and> atoi (inputpoint s') = of_nat (spec_decimal (spec_digits 5 payload))
            \<and> (spec_decimal (spec_digits 5 payload) < 32768 \<longrightarrow>
                 sint (atoi (inputpoint s')) = int (spec_decimal (spec_digits 5 payload)))))"
proof -
  let ?n = "spec_decimal (spec_digits 3 payload)"
  have n: "?n < 1000" using spec_decimal_digits_less [of 3 payload] by simp
  then have sn: "sint (of_nat ?n :: int16) = int ?n" by (simp add: sint_of_nat_int16)
  have a3: "atoi (spec_digits 3 payload @ 0 # xs) = of_nat ?n" for xs
    by (rule atoi_spec) (rule spec_digits_isdigit)
  have a5: "atoi (spec_digits 5 payload @ 0 # xs) = of_nat (spec_decimal (spec_digits 5 payload))" for xs
    by (rule atoi_spec) (rule spec_digits_isdigit)
  have len: "length (inputfx s) = 4" "length (inputfy s) = 4" "length (inputgap s) = 4"
    "length (inputpoint s) = 6"
    using assms(1) by (simp_all add: well_formed_def)
  have x: "\<exists>s'. interpreter s = Some s' \<and> rx s' = rest
            \<and> sint (atoi (inputfx s')) = int ?n" if "tag = 120"
    using interpreter_x [OF len(1) assms(2) [unfolded that] assms(3)]
    by (simp add: emit_def a3 sn)
  have y: "\<exists>s'. interpreter s = Some s' \<and> rx s' = rest
            \<and> sint (atoi (inputfy s')) = int ?n" if "tag = 121"
    using interpreter_y [OF len(2) assms(2) [unfolded that] assms(3)]
    by (simp add: emit_def a3 sn)
  have g: "\<exists>s'. interpreter s = Some s' \<and> rx s' = rest
            \<and> sint (atoi (inputgap s')) = int ?n" if "tag = 103"
    using interpreter_g [OF len(3) assms(2) [unfolded that] assms(3)]
    by (simp add: emit_def a3 sn)
  have p: "\<exists>s'. interpreter s = Some s' \<and> rx s' = rest
            \<and> delay_time s' = atoi (inputpoint s')
            \<and> atoi (inputpoint s') = of_nat (spec_decimal (spec_digits 5 payload))
            \<and> (spec_decimal (spec_digits 5 payload) < 32768 \<longrightarrow>
                 sint (atoi (inputpoint s')) = int (spec_decimal (spec_digits 5 payload)))"
    if "tag = 112"
    using interpreter_p [OF len(4) assms(2) [unfolded that] assms(3)]
    by (simp add: emit_def a5 sint_of_nat_int16)
  from x y g p show ?thesis by blast
qed

text \<open>
  The theorem at \<^verbatim>\<open>x1a2\n\<close> (parsed as 12) and at \<^verbatim>\<open>p1400\n\<close> (a dwell time of
  1400) after start-up.
\<close>

theorem parsed_value_decimal_witness:
  "well_formed (initial_state [120, 49, 97, 50, 10] quiet)
   \<and> rx (initial_state [120, 49, 97, 50, 10] quiet) = 120 # [49, 97, 50] @ 10 # []
   \<and> 10 \<notin> set [49, 97, 50 :: byte]
   \<and> (\<exists>s'. interpreter (initial_state [120, 49, 97, 50, 10] quiet) = Some s'
          \<and> sint (atoi (inputfx s')) = 12)
   \<and> spec_decimal (spec_digits 5 [49, 52, 48, 48]) < 32768
   \<and> (\<exists>s'. interpreter (initial_state [112, 49, 52, 48, 48, 10] quiet) = Some s'
          \<and> sint (delay_time s') = 1400)"
proof -
  have w: "well_formed (initial_state bytes quiet)" for bytes
    by (rule well_formed_initial)
  have r: "rx (initial_state [120, 49, 97, 50, 10] quiet) = 120 # [49, 97, 50] @ 10 # []"
    "rx (initial_state [112, 49, 52, 48, 48, 10] quiet) = 112 # [49, 52, 48, 48] @ 10 # []"
    by (simp_all add: initial_state_def)
  have n: "10 \<notin> set [49, 97, 50 :: byte]" "10 \<notin> set [49, 52, 48, 48 :: byte]" by simp_all
  from parsed_value_decimal [OF w r(1) n(1)]
  have x: "\<exists>s'. interpreter (initial_state [120, 49, 97, 50, 10] quiet) = Some s'
          \<and> sint (atoi (inputfx s')) = 12"
    by (simp add: decimal_evals) blast
  from parsed_value_decimal [OF w r(2) n(2)]
  have p: "\<exists>s'. interpreter (initial_state [112, 49, 52, 48, 48, 10] quiet) = Some s'
          \<and> sint (delay_time s') = 1400"
    by (simp add: decimal_evals) (metis)
  have d: "spec_decimal (spec_digits 5 [49, 52, 48, 48]) < 32768" by (simp add: decimal_evals)
  from w r(1) n(1) x d p show ?thesis by (simp only: simp_thms)
qed

text \<open>
  Against C3 as it is worded (for \<^verbatim>\<open>p\<close>, any number of up to five digits): after
  \<^verbatim>\<open>p40000\n\<close> the digits denote 40000, and the parsed value and the dwell time are
  the \<^verbatim>\<open>int\<close> -25536.
\<close>

theorem dwell_exceeds_int:
  "interpreter (initial_state [112, 52, 48, 48, 48, 48, 10] quiet) \<noteq> None
   \<and> spec_decimal (spec_digits 5 [52, 48, 48, 48, 48]) = 40000
   \<and> sint (atoi (inputpoint (the (interpreter (initial_state [112, 52, 48, 48, 48, 48, 10] quiet)))))
       = - 25536
   \<and> sint (atoi (inputpoint (the (interpreter (initial_state [112, 52, 48, 48, 48, 48, 10] quiet)))))
       \<noteq> int (spec_decimal (spec_digits 5 [52, 48, 48, 48, 48]))
   \<and> sint (delay_time (the (interpreter (initial_state [112, 52, 48, 48, 48, 48, 10] quiet))))
       = - 25536"
proof -
  have a5: "atoi (spec_digits 5 payload @ 0 # xs) = of_nat (spec_decimal (spec_digits 5 payload))"
    for payload xs
    by (rule atoi_spec) (rule spec_digits_isdigit)
  show ?thesis
    by (simp add: interpreter_p [where payload = "[52, 48, 48, 48, 48]" and rest = "[]"]
        initial_state_def a5 decimal_evals)
qed

text \<open>
  Claim C4. A scan line in RUN mode leaves the Y origin at its value at the start of the
  line plus the line gap, in the \<^verbatim>\<open>int\<close> arithmetic of the code and with no clamp
  (as integers too, as long as the sum is an \<^verbatim>\<open>int\<close>); the gap is unchanged. And the
  Y origin does exceed 255: after \<^verbatim>\<open>y255\n\<close>, \<^verbatim>\<open>g128\n\<close> and \<^verbatim>\<open>u\<close> the
  third pass of the loop, which scans the first line, leaves it at 383.
\<close>

theorem line_advances_y:
  assumes "direc s = 0"
  shows "startY (scan_engine s) = startY s + gap s
    \<and> gap (scan_engine s) = gap s
    \<and> (- 32768 \<le> sint (startY s) + sint (gap s) \<and> sint (startY s) + sint (gap s) < 32768
         \<longrightarrow> sint (startY (scan_engine s)) = sint (startY s) + sint (gap s))
    \<and> (\<exists>s'. loops 3 (initial_state [121, 50, 53, 53, 10, 103, 49, 50, 56, 10, 117] signal)
                = Some s' \<and> sint (gap s') = 128 \<and> sint (startY s') = 383)"
proof -
  have a: "startY (scan_engine s) = startY s + gap s" "gap (scan_engine s) = gap s"
    using assms by (simp_all add: scan_engine_def run_step_closed)
  have b: "sint (startY s + gap s) = sint (startY s) + sint (gap s)"
    if "- 32768 \<le> sint (startY s) + sint (gap s)" "sint (startY s) + sint (gap s) < 32768"
    using that by (simp add: sint_word_ariths signed_take_bit_int_eq_self)
  have d1: "spec_decimal (spec_digits 3 [50, 53, 53]) = 255"
    by (simp add: spec_digits_def spec_decimal_def isdigit_iff)
  have d2: "spec_decimal (spec_digits 3 [49, 50, 56]) = 128"
    by (simp add: spec_digits_def spec_decimal_def isdigit_iff)
  have c: "\<exists>s'. loops 3 (initial_state [121, 50, 53, 53, 10, 103, 49, 50, 56, 10, 117] signal)
                = Some s' \<and> sint (gap s') = 128 \<and> sint (startY s') = 383"
    by (simp add: loops_numeral loop_def scan_engine_def idle_step_counted run_step_well_formed
      interpreter_y [where payload = "[50, 53, 53]" and rest = "[103, 49, 50, 56, 10, 117]"]
      interpreter_g [where payload = "[49, 50, 56]" and rest = "[117]"]
      interpreter_u [where rest = "[]"] initial_state_def d1 d2 emit_def)
  from a b c show ?thesis by (simp only: simp_thms) blast
qed

text \<open>The theorem at the state in RUN mode with Y origin 255 and line gap 128.\<close>

theorem line_advances_y_witness:
  "direc (running 255 128) = 0 \<and> sint (startY (running 255 128)) = 255
   \<and> - 32768 \<le> sint (startY (running 255 128)) + sint (gap (running 255 128))
   \<and> sint (startY (running 255 128)) + sint (gap (running 255 128)) < 32768
   \<and> sint (startY (scan_engine (running 255 128))) = 383"
proof -
  have d: "direc (running 255 128) = 0" and y: "startY (running 255 128) = 255"
    and g: "gap (running 255 128) = 128"
    by (simp_all add: running_def)
  from line_advances_y [OF d] have "startY (scan_engine (running 255 128))
      = startY (running 255 128) + gap (running 255 128)" by blast
  with d show ?thesis by (simp add: y g)
qed

text \<open>
  Claim C5. In a pass of the loop that found a byte waiting and returned, the events of
  the pass hold exactly one acknowledgement byte \<^verbatim>\<open>'a'\<close> when the mode after the
  command is RUN, however many bytes the command took, and none when it is IDLE.
\<close>

theorem ack_once_per_pass:
  assumes "Serial_available s" and "loop s = Some s'"
  shows "\<exists>t. out s' = out s @ t \<and> acks t = (if direc s' = 0 then 1 else 0)"
proof -
  from assms(2) obtain s2 where i: "interpreter s = Some s2" and s': "s' = scan_engine s2"
    by (auto simp: loop_def split: option.splits)
  from i assms(1) obtain s1 where sw: "switch_val (s\<lparr>val := hd (rx s), rx := tl (rx s)\<rparr>) = Some s1"
    and s2: "s2 = (if direc s1 = 0 then emit (Serial_print 97) s1 else s1)"
    by (auto simp: interpreter_def split: option.splits)
  from switch_val_out [OF sw] obtain t1 where t1: "out s1 = out s @ t1" "acks t1 = 0"
    by auto
  from scan_engine_out [of s2] obtain t2 where t2: "out s' = out s2 @ t2" "acks t2 = 0"
    "direc s' = direc s2" unfolding s' by auto
  show ?thesis
  proof (cases "direc s1 = 0")
    case True
    with s2 t1 t2 have "out s' = out s @ (t1 @ Serial_print 97 # t2)" "direc s' = 0"
      by (simp_all add: emit_def)
    moreover have "acks (t1 @ Serial_print 97 # t2) = 1"
      using t1(2) t2(2) by (simp add: acks_def)
    ultimately show ?thesis by auto
  next
    case False
    with s2 t1 t2 have "out s' = out s @ (t1 @ t2)" "direc s' \<noteq> 0"
      by simp_all
    moreover have "acks (t1 @ t2) = 0"
      using t1(2) t2(2) by (simp add: acks_append)
    ultimately show ?thesis by auto
  qed
qed

text \<open>
  The theorem in RUN mode with the five bytes of \<^verbatim>\<open>x123\n\<close> waiting: one
  acknowledgement.
\<close>

theorem ack_once_per_pass_witness:
  "Serial_available (run_pending [120, 49, 50, 51, 10])
   \<and> (\<exists>s'. loop (run_pending [120, 49, 50, 51, 10]) = Some s' \<and> direc s' = 0
         \<and> (\<exists>t. out s' = out (run_pending [120, 49, 50, 51, 10]) @ t \<and> acks t = 1))"
proof -
  let ?S = "run_pending [120, 49, 50, 51, 10]"
  have a: "Serial_available ?S"
    by (simp add: Serial_available_def run_pending_def initial_state_def)
  have "interpreter ?S \<noteq> None"
    by (simp add: interpreter_x [where payload = "[49, 50, 51]" and rest = "[]"]
        run_pending_def initial_state_def)
  then obtain s1 where i: "interpreter ?S = Some s1" by auto
  then have d1: "direc s1 = 0"
    by (simp add: interpreter_x [where payload = "[49, 50, 51]" and rest = "[]"]
        run_pending_def initial_state_def emit_def) auto
  from i have l: "loop ?S = Some (scan_engine s1)" by (simp add: loop_def)
  have d: "direc (scan_engine s1) = 0"
    using scan_engine_out [of s1] d1 by auto
  from ack_once_per_pass [OF a l] d a l show ?thesis by auto
qed

text \<open>
  Claim C6. With \<^verbatim>\<open>e\<close> waiting, the interpreter itself (before the scan engine runs)
  sets the mode to IDLE and writes zero to the X bus and to the Y bus, and changes
  nothing else of the configuration. When the mode is IDLE already the configuration is
  unchanged; and an \<^verbatim>\<open>e\<close> after an \<^verbatim>\<open>e\<close> changes neither the configuration nor
  the buses.
\<close>

theorem e_command_idle:
  assumes "rx s = 101 # rest"
  shows "\<exists>s'. interpreter s = Some s' \<and> direc s' = 2 \<and> PORTL s' = 0 \<and> PORTC s' = 0
           \<and> out s' = out s @ [Write_PORTL 0, Write_PORTC 0] \<and> rx s' = rest
           \<and> startX s' = startX s \<and> startY s' = startY s \<and> gap s' = gap s
           \<and> delay_time s' = delay_time s \<and> fes s' = fes s
           \<and> conversions s' = conversions s
           \<and> (direc s = 2 \<longrightarrow> configuration s' = configuration s)
           \<and> (\<forall>rest'. \<exists>s''. interpreter (s'\<lparr>rx := 101 # rest'\<rparr>) = Some s''
                  \<and> configuration s'' = configuration s'
                  \<and> PORTL s'' = PORTL s' \<and> PORTC s'' = PORTC s')"
proof -
  let ?s' = "s\<lparr>val := 101, rx := rest, direc := 2, PORTL := 0, PORTC := 0,
               out := out s @ [Write_PORTL 0, Write_PORTC 0]\<rparr>"
  have first: "interpreter s = Some ?s'"
    using assms by (rule interpreter_e)
  have kept: "direc s = 2 \<longrightarrow> configuration ?s' = configuration s"
    by (simp add: configuration_def)
  have again: "\<exists>s''. interpreter (?s'\<lparr>rx := 101 # rest'\<rparr>) = Some s''
                  \<and> configuration s'' = configuration ?s'
                  \<and> PORTL s'' = PORTL ?s' \<and> PORTC s'' = PORTC ?s'" for rest'
  proof -
    have "rx (?s'\<lparr>rx := 101 # rest'\<rparr>) = 101 # rest'" by simp
    then have "interpreter (?s'\<lparr>rx := 101 # rest'\<rparr>) =
        Some (?s'\<lparr>rx := 101 # rest'\<rparr>\<lparr>val := 101, rx := rest', direc := 2, PORTL := 0, PORTC := 0,
               out := out (?s'\<lparr>rx := 101 # rest'\<rparr>) @ [Write_PORTL 0, Write_PORTC 0]\<rparr>)"
      by (rule interpreter_e)
    then show ?thesis by (simp add: configuration_def)
  qed
  from first kept again show ?thesis by simp
qed

text \<open>The theorem at \<^verbatim>\<open>e\n\<close> after start-up, in IDLE mode.\<close>

theorem e_command_idle_witness:
  "rx (initial_state [101, 10] quiet) = [101, 10] \<and>
   (\<exists>s'. interpreter (initial_state [101, 10] quiet) = Some s' \<and> direc s' = 2
      \<and> PORTL s' = 0 \<and> PORTC s' = 0
      \<and> configuration s' = configuration (initial_state [101, 10] quiet))"
proof -
  have r: "rx (initial_state [101, 10] quiet) = [101, 10]"
    and d: "direc (initial_state [101, 10] quiet) = 2"
    by (simp_all add: initial_state_def)
  from e_command_idle [OF r] d show ?thesis
    by (auto simp: r)
qed

text \<open>
  Claim C7. With the frames \<^verbatim>\<open>x10\n\<close>, \<^verbatim>\<open>y20\n\<close>, \<^verbatim>\<open>g5\n\<close>,
  \<^verbatim>\<open>p1000\n\<close>, \<^verbatim>\<open>u\n\<close> waiting after start-up, the first four passes of the
  loop store the parameters and stay in IDLE mode (each samples once). The fifth pass
  acknowledges \<^verbatim>\<open>u\<close> and emits the first scan line: the Y bus is written once, with
  20, then X runs from 0 to 255 with a dwell time of 1000, then the 256 samples are
  printed. The sixth pass reads the line feed left by \<^verbatim>\<open>u\n\<close> and emits the next
  line, with 25 on the Y bus.
\<close>

theorem scenario_first_lines:
  "\<exists>s4 s5 s6.
     loops 4 (initial_state scenario signal) = Some s4
     \<and> loops 5 (initial_state scenario signal) = Some s5
     \<and> loops 6 (initial_state scenario signal) = Some s6
     \<and> direc s4 = 2 \<and> startX s4 = 10 \<and> startY s4 = 20 \<and> gap s4 = 5 \<and> delay_time s4 = 1000
     \<and> out s4 = [Write_PORTL 0, Write_PORTC 0] @ spec_idle_sample signal 0
           @ spec_idle_sample signal 1 @ spec_idle_sample signal 2 @ spec_idle_sample signal 3
     \<and> out s5 = out s4 @ Serial_print 97 # spec_scan_line 20 1000 signal 4
     \<and> PORTC s5 = 20 \<and> startY s5 = 25
     \<and> out s6 = out s5 @ Serial_print 97 # spec_scan_line 25 1000 signal 260
     \<and> PORTC s6 = 25"
proof -
  from scenario_after_4 [of signal] obtain s4 where
    l4: "loops 4 (initial_state scenario signal) = Some s4"
    and c4: "direc s4 = 2" "startX s4 = 10" "startY s4 = 20" "gap s4 = 5" "delay_time s4 = 1000"
    and o4: "out s4 = [Write_PORTL 0, Write_PORTC 0] @ spec_idle_sample signal 0
           @ spec_idle_sample signal 1 @ spec_idle_sample signal 2 @ spec_idle_sample signal 3"
    by blast
  from scenario_after_5 [of signal] obtain s5 where
    l5: "loops 5 (initial_state scenario signal) = Some s5"
    and o5: "out s5 = ([Write_PORTL 0, Write_PORTC 0] @ spec_idle_sample signal 0
           @ spec_idle_sample signal 1 @ spec_idle_sample signal 2 @ spec_idle_sample signal 3)
           @ Serial_print 97 # spec_scan_line 20 1000 signal 4"
    and c5: "PORTC s5 = 20" "startY s5 = 25"
    by blast
  from scenario_after_6 [of signal] obtain s6 where
    l6: "loops 6 (initial_state scenario signal) = Some s6"
    and o6: "out s6 = (([Write_PORTL 0, Write_PORTC 0] @ spec_idle_sample signal 0
           @ spec_idle_sample signal 1 @ spec_idle_sample signal 2 @ spec_idle_sample signal 3)
           @ Serial_print 97 # spec_scan_line 20 1000 signal 4)
           @ Serial_print 97 # spec_scan_line 25 1000 signal 260"
    and c6: "PORTC s6 = 25"
    by blast
  have r5: "out s5 = out s4 @ Serial_print 97 # spec_scan_line 20 1000 signal 4"
    by (simp only: o5 o4)
  have r6: "out s6 = out s5 @ Serial_print 97 # spec_scan_line 25 1000 signal 260"
    by (simp only: o6 o5)
  from l4 l5 l6 c4 o4 r5 c5 r6 c6 show ?thesis
    by (intro exI conjI)
qed

text \<open>
  Claim C8. The scan engine does not read \<^verbatim>\<open>startX\<close>: run from a state with another
  value of \<^verbatim>\<open>startX\<close>, it ends in the same state but for that value, in RUN mode
  and in IDLE mode, so the events and both buses are the same. The same holds for any
  number of passes of the loop, whatever the host sends: the events (bus writes,
  conversions, bytes printed) and the buses do not depend on \<^verbatim>\<open>startX\<close>.
\<close>

theorem startX_not_observed:
  "scan_engine (s\<lparr>startX := v\<rparr>) = (scan_engine s)\<lparr>startX := v\<rparr>
   \<and> out (scan_engine (s\<lparr>startX := v\<rparr>)) = out (scan_engine s)
   \<and> PORTL (scan_engine (s\<lparr>startX := v\<rparr>)) = PORTL (scan_engine s)
   \<and> PORTC (scan_engine (s\<lparr>startX := v\<rparr>)) = PORTC (scan_engine s)
   \<and> map_option out (loops n (s\<lparr>startX := v\<rparr>)) = map_option out (loops n s)
   \<and> map_option PORTL (loops n (s\<lparr>startX := v\<rparr>)) = map_option PORTL (loops n s)
   \<and> map_option PORTC (loops n (s\<lparr>startX := v\<rparr>)) = map_option PORTC (loops n s)"
proof -
  have "except_startX s (s\<lparr>startX := v\<rparr>)" by (simp add: except_startX_def)
  then have r: "rel_option except_startX (loops n s) (loops n (s\<lparr>startX := v\<rparr>))"
    by (rule loops_startX)
  have e: "out t = out u \<and> PORTL t = PORTL u \<and> PORTC t = PORTC u" if "except_startX u t" for t u
  proof -
    from that have "t = u\<lparr>startX := startX t\<rparr>" by (simp add: except_startX_def)
    then have "out t = out (u\<lparr>startX := startX t\<rparr>)" "PORTL t = PORTL (u\<lparr>startX := startX t\<rparr>)"
      "PORTC t = PORTC (u\<lparr>startX := startX t\<rparr>)" by simp_all
    then show ?thesis by simp
  qed
  have l: "map_option out (loops n (s\<lparr>startX := v\<rparr>)) = map_option out (loops n s)
    \<and> map_option PORTL (loops n (s\<lparr>startX := v\<rparr>)) = map_option PORTL (loops n s)
    \<and> map_option PORTC (loops n (s\<lparr>startX := v\<rparr>)) = map_option PORTC (loops n s)"
    using r e by (cases "loops n s"; cases "loops n (s\<lparr>startX := v\<rparr>)") auto
  show ?thesis
    using l by (simp add: scan_engine_startX)
qed

text \<open>
  Claim C9. When the byte waiting is none of \<^verbatim>\<open>x\<close>, \<^verbatim>\<open>y\<close>, \<^verbatim>\<open>g\<close>,
  \<^verbatim>\<open>p\<close>, \<^verbatim>\<open>u\<close>, \<^verbatim>\<open>e\<close>, the interpreter takes that byte and no other,
  leaves the configuration and both buses as they are, and prints \<^verbatim>\<open>'a'\<close> exactly
  when the mode is RUN. The line feed of a frame \<^verbatim>\<open>u\n\<close> or \<^verbatim>\<open>e\n\<close> is such a
  byte: \<^verbatim>\<open>u\<close> and \<^verbatim>\<open>e\<close> leave it waiting.
\<close>

theorem unknown_tag_ignored:
  assumes "rx s = b # rest" and "b \<notin> {120, 121, 103, 112, 117, 101}"
  shows "(\<exists>s'. interpreter s = Some s' \<and> rx s' = rest
           \<and> configuration s' = configuration s
           \<and> PORTL s' = PORTL s \<and> PORTC s' = PORTC s
           \<and> out s' = out s @ (if direc s = 0 then [Serial_print 97] else []))
    \<and> (\<exists>s'. interpreter (s\<lparr>rx := 117 # 10 # r\<rparr>) = Some s' \<and> rx s' = 10 # r)
    \<and> (\<exists>s'. interpreter (s\<lparr>rx := 101 # 10 # r\<rparr>) = Some s' \<and> rx s' = 10 # r)"
  using assms
  by (simp add: interpreter_other configuration_def emit_def
      interpreter_u [where rest = "10 # r"] interpreter_e [where rest = "10 # r"])

text \<open>The theorem in RUN mode with a line feed waiting.\<close>

theorem unknown_tag_ignored_witness:
  "rx (run_pending [10]) = [10] \<and> 10 \<notin> {120, 121, 103, 112, 117, 101 :: byte}
   \<and> (\<exists>s'. interpreter (run_pending [10]) = Some s' \<and> rx s' = []
         \<and> configuration s' = configuration (run_pending [10])
         \<and> out s' = out (run_pending [10]) @ [Serial_print 97])"
proof -
  have r: "rx (run_pending [10]) = [10]" and d: "direc (run_pending [10]) = 0"
    by (simp_all add: run_pending_def initial_state_def)
  have n: "10 \<notin> {120, 121, 103, 112, 117, 101 :: byte}" by simp
  from unknown_tag_ignored [OF r n] r n d show ?thesis by auto
qed

text \<open>
  Claim C10. In RUN mode the first event of the scan engine is the write of the Y bus, and
  the 8-bit value written is \<^verbatim>\<open>startY\<close> modulo 256; it stays on the bus for the
  rest of the pass. So a Y origin beyond 255 wraps around: 383 drives the bus with 127.
\<close>

theorem y_bus_modulo:
  assumes "direc s = 0"
  shows "(\<exists>t. out (scan_engine s) = out s @ Write_PORTC (ucast (startY s)) # t)
    \<and> PORTC (scan_engine s) = ucast (startY s)
    \<and> uint (ucast (startY s) :: byte) = sint (startY s) mod 256"
proof -
  have r: "scan_engine s = run_step s"
    using assms by (simp add: scan_engine_def)
  have "out (run_step s) = out s @ Write_PORTC (ucast (startY s)) #
      (Delay 1 # concat (map (\<lambda>n. [Write_PORTL (of_nat n), DelayMicroseconds (delay_time s),
                                   AnalogRead (A0 s (conversions s + n))]) [0..<256])
         @ concat (map (\<lambda>n. [Serial_println
                   (fold (\<lambda>n xs. xs[n := A0 s (conversions s + n)]) [0..<256] (fes s) ! n),
                                   DelayMicroseconds 50]) [0..<256]))"
    by (simp add: run_step_closed)
  then have first: "\<exists>t. out (scan_engine s) = out s @ Write_PORTC (ucast (startY s)) # t"
    unfolding r by (rule exI)
  have held: "PORTC (scan_engine s) = ucast (startY s)"
    unfolding r by (simp add: run_step_closed)
  have wrap: "uint (ucast (startY s) :: byte) = sint (startY s) mod 256"
    by (rule uint_ucast_int16)
  from first held wrap show ?thesis by (simp only: simp_thms)
qed

text \<open>The theorem at the state in RUN mode with Y origin 383.\<close>

theorem y_bus_modulo_witness:
  "direc (running 383 128) = 0
   \<and> (\<exists>t. out (scan_engine (running 383 128)) = out (running 383 128) @ Write_PORTC 127 # t)
   \<and> PORTC (scan_engine (running 383 128)) = 127"
proof -
  have d: "direc (running 383 128) = 0" and y: "startY (running 383 128) = 383"
    by (simp_all add: running_def)
  have u: "(ucast (383 :: int16) :: byte) = 127" by simp
  from y_bus_modulo [OF d] d show ?thesis
    unfolding y u by blast
qed

end
